theory Spec2Isabelle
  imports Main "HOL-Library.AList"
begin

section \<open>JavaScript values\<close>

text \<open>
  The values the reactive core and the patch algorithm compare and store. Numbers are
  the integers together with \<open>NaN\<close>, the one number that is not strictly equal to
  itself; \<open>Ref\<close> is a reference to a heap object (a plain object, an array, a function).
\<close>

datatype jsnum = NaN | Fin int

datatype jsval = Undefined | Null | Bool bool | Num jsnum | Str string | Ref nat

text \<open>The exceptions a model function can end with.\<close>

datatype error = TypeError | UserError | OutOfFuel

text \<open>\<open>a === b\<close>: equality of primitives and of references, except that \<open>NaN !== NaN\<close>.\<close>

definition strict_eq :: "jsval \<Rightarrow> jsval \<Rightarrow> bool" where
  "strict_eq a b = (a = b \<and> a \<noteq> Num NaN)"

text \<open>
  Modelled from the spec: the predicates of \<open>shared/util\<close>, which is not among the
  sources. \<open>isUndef\<close> holds of \<open>undefined\<close> and \<open>null\<close>, \<open>isDef\<close> is its negation,
  \<open>isTrue\<close> is \<open>=== true\<close>, \<open>isPrimitive\<close> holds of strings, numbers and booleans
  (symbols are not modelled) and \<open>isObject\<close> of references.
\<close>

definition isUndef :: "jsval \<Rightarrow> bool" where
  "isUndef v = (v = Undefined \<or> v = Null)"

definition isDef :: "jsval \<Rightarrow> bool" where
  "isDef v = (v \<noteq> Undefined \<and> v \<noteq> Null)"

definition isTrue :: "jsval \<Rightarrow> bool" where
  "isTrue v = (v = Bool True)"

fun isPrimitive :: "jsval \<Rightarrow> bool" where
  "isPrimitive (Str _) = True"
| "isPrimitive (Num _) = True"
| "isPrimitive (Bool _) = True"
| "isPrimitive _ = False"

fun isObject :: "jsval \<Rightarrow> bool" where
  "isObject (Ref _) = True"
| "isObject _ = False"

section \<open>Virtual nodes (src/core/vdom/patch.js)\<close>

type_synonym vref = nat
type_synonym aref = nat
type_synonym node = nat
type_synonym cref = nat

datatype hookname = Init | Prepatch | Insert | Update | Remove | Postpatch | Destroy | Create

record vattrs =
  attr_type :: jsval

record vdata =
  attrs :: "vattrs option"
  hook :: "hookname list option"
  keepAlive :: bool
  pendingInsert :: "vref list option"
  pre :: bool
  transition :: bool
  appendAsTree :: bool

record afactory =
  fid :: nat
  ferror :: jsval
  fresolved :: jsval

text \<open>
  A VNode object. An optional field is \<open>None\<close> when it is \<open>undefined\<close> (or \<open>null\<close>);
  \<open>children\<close> is a reference to the children array, \<open>elm\<close> a host node,
  \<open>componentInstance\<close> and \<open>context\<close> references to component instances.
\<close>

record vnode =
  tag :: "string option"
  data :: "vdata option"
  children :: "aref option"
  vtext :: jsval
  elm :: "node option"
  ns :: "string option"
  vcontext :: "cref option"
  fnContext :: "cref option"
  fnScopeId :: "string option"
  key :: jsval
  componentInstance :: "cref option"
  parent :: "vref option"
  isStatic :: bool
  isComment :: bool
  isCloned :: bool
  isOnce :: bool
  isRootInsert :: bool
  isAsyncPlaceholder :: bool
  asyncFactory :: "afactory option"

text \<open>
  \<open>typeA\<close> and \<open>typeB\<close> of \<open>sameInputType\<close>:
  \<open>isDef(i = a.data) && isDef(i = i.attrs) && i.type\<close>, which is \<open>false\<close> when the
  data or its attrs are missing.
\<close>

definition inputType :: "vnode \<Rightarrow> jsval" where
  "inputType a =
     (case data a of
        None \<Rightarrow> Bool False
      | Some d \<Rightarrow> (case attrs d of None \<Rightarrow> Bool False | Some i \<Rightarrow> attr_type i))"

text \<open>
  \<open>isTextInputType\<close> comes from the web platform (\<open>web/util/element\<close>), which is not
  among the sources: it is a parameter.
\<close>

definition sameInputType :: "(jsval \<Rightarrow> bool) \<Rightarrow> vnode \<Rightarrow> vnode \<Rightarrow> bool" where
  "sameInputType isTextInputType a b =
     (if tag a \<noteq> Some ''input'' then True
      else strict_eq (inputType a) (inputType b)
           \<or> (isTextInputType (inputType a) \<and> isTextInputType (inputType b)))"

text \<open>
  \<open>sameVnode\<close>: the key test, then either the structural test or the test for an
  asynchronous placeholder. Reading \<open>b.asyncFactory.error\<close> of a missing factory is a
  TypeError. Two factories are the same object when their ids agree.
\<close>

definition sameVnode :: "(jsval \<Rightarrow> bool) \<Rightarrow> vnode \<Rightarrow> vnode \<Rightarrow> error + bool" where
  "sameVnode isTextInputType a b =
     (if \<not> strict_eq (key a) (key b) then Inr False
      else if tag a = tag b \<and> isComment a = isComment b
              \<and> (data a \<noteq> None) = (data b \<noteq> None)
              \<and> sameInputType isTextInputType a b then Inr True
      else if \<not> isAsyncPlaceholder a then Inr False
      else if map_option fid (asyncFactory a) \<noteq> map_option fid (asyncFactory b) then Inr False
      else (case asyncFactory b of
              None \<Rightarrow> Inl TypeError
            | Some f \<Rightarrow> Inr (isUndef (ferror f))))"

text \<open>A vnode with every optional field undefined and every flag false, for examples.\<close>

definition blankVNode :: vnode where
  "blankVNode =
     \<lparr> tag = None, data = None, children = None, vtext = Undefined, elm = None, ns = None,
       vcontext = None, fnContext = None, fnScopeId = None, key = Undefined,
       componentInstance = None, parent = None, isStatic = False, isComment = False,
       isCloned = False, isOnce = False, isRootInsert = False, isAsyncPlaceholder = False,
       asyncFactory = None \<rparr>"

definition blankData :: vdata where
  "blankData =
     \<lparr> attrs = None, hook = None, keepAlive = False, pendingInsert = None, pre = False,
       transition = False, appendAsTree = False \<rparr>"

text \<open>
  The placeholder comment of an asynchronous component and the component vnode it
  resolves to: they share the factory and differ in tag and in comment-ness.
\<close>

definition asyncPlaceholder :: vnode where
  "asyncPlaceholder =
     blankVNode \<lparr> isComment := True, isAsyncPlaceholder := True,
       asyncFactory := Some \<lparr> fid = 1, ferror = Undefined, fresolved = Undefined \<rparr> \<rparr>"

definition asyncResolved :: vnode where
  "asyncResolved =
     blankVNode \<lparr> tag := Some ''vue-component-1-child'', data := Some blankData,
       asyncFactory := Some \<lparr> fid = 1, ferror = Undefined, fresolved = Ref 7 \<rparr> \<rparr>"

section \<open>The reactive state (src/core/observer)\<close>

type_synonym depid = nat
type_synonym wid = nat
type_synonym obid = nat
type_synonym oref = nat
type_synonym vmid = nat

text \<open>
  A Watcher object. The watcher's \<open>id\<close> is its address; its getter and its callback are
  user code and belong to the environment. \<open>depIds\<close> and \<open>newDepIds\<close> are the two
  \<open>Set\<close>s of dep ids, \<open>deps\<close> and \<open>newDeps\<close> the two arrays of Deps (a Dep is
  identified with its id).
\<close>

record watcher =
  w_vm :: vmid
  deep :: bool
  user :: bool
  lazy :: bool
  sync :: bool
  dirty :: bool
  active :: bool
  deps :: "depid list"
  newDeps :: "depid list"
  depIds :: "depid set"
  newDepIds :: "depid set"
  wvalue :: jsval

text \<open>
  The functions a property accessor can hold. A user accessor works on a private cell
  of the state (the getter computes its result from the cell, the setter the new cell
  from the value written and the old cell); \<open>reactiveGetter\<close> and \<open>reactiveSetter\<close>
  are identified by the closure of the \<open>defineReactive\<close> call that made them.
\<close>

datatype getfn = UserGet "jsval \<Rightarrow> jsval" nat | ReactiveGet nat

datatype setfn = UserSet "jsval \<Rightarrow> jsval \<Rightarrow> jsval" nat | ReactiveSet nat

text \<open>
  A property descriptor: a data property (value, configurable) or an accessor
  property (get, set, configurable).
\<close>

datatype jsprop = DataProp jsval bool | AccessorProp "getfn option" "setfn option" bool

text \<open>
  The variables of one \<open>defineReactive\<close> call that its accessor pair closes over:
  \<open>dep\<close>, \<open>val\<close>, \<open>childOb\<close>, \<open>getter\<close>, \<open>setter\<close>, whether a \<open>customSetter\<close>
  was given, and \<open>shallow\<close>.
\<close>

record closure =
  c_dep :: depid
  c_val :: jsval
  c_childOb :: "obid option"
  c_getter :: "getfn option"
  c_setter :: "setfn option"
  c_customSetter :: bool
  c_shallow :: bool

datatype objkind = PlainObject | ArrayObject | VNodeObject | OtherObject

record jsobj =
  kind :: objkind
  props :: "(string \<times> jsprop) list"
  elems :: "jsval list"
  inherited :: "string list"
  ob :: "obid option"
  isVue :: bool
  extensible :: bool

record observer =
  ob_value :: oref
  ob_dep :: depid
  vmCount :: nat

datatype array_method = Push | Pop | Shift | Unshift | Splice | Sort | Reverse

text \<open>
  The calls that leave the modelled code (user getters, callbacks and setters, the
  scheduler, the native array methods, \<open>warn\<close> and \<open>handleError\<close>) are recorded in a
  trace, in the order in which they happen; so is every call of \<open>Dep.notify\<close>.
\<close>

datatype event =
    GetterCall wid
  | CbCall wid jsval jsval
  | HandleError wid
  | QueueWatcher wid
  | Notify depid
  | Warn string
  | NativeCall array_method "jsval list"
  | CustomSetterCall

record rstate =
  dep_subs :: "depid \<Rightarrow> wid list"
  dep_uid :: nat
  watchers :: "wid \<Rightarrow> watcher"
  watcher_uid :: nat
  target :: "wid option"
  targetStack :: "wid option list"
  vm_watchers :: "vmid \<Rightarrow> wid list"
  vm_watcher :: "vmid \<Rightarrow> wid option"
  vm_isBeingDestroyed :: "vmid \<Rightarrow> bool"
  vm_computedWatchers :: "vmid \<Rightarrow> (string \<times> wid) list option"
  heap :: "oref \<Rightarrow> jsobj"
  observers :: "obid \<Rightarrow> observer"
  ob_uid :: nat
  shouldObserve :: bool
  closures :: "nat \<Rightarrow> closure"
  closure_uid :: nat
  cells :: "nat \<Rightarrow> jsval"
  trace :: "event list"

text \<open>
  One run of a user getter under \<open>Dep.target\<close>: the Deps whose \<open>depend()\<close> it calls, in
  order (each read of a reactive property calls it), and the value it returns, or
  \<open>None\<close> when it throws.
\<close>

record getter_run =
  reads :: "depid list"
  outcome :: "jsval option"

text \<open>
  The environment: the build flags (\<open>process.env.NODE_ENV\<close>, \<open>config.async\<close>,
  \<open>isServerRendering()\<close>), the user getter of each watcher, and the functions of files
  that are not among the sources: \<open>traverse\<close> (the Deps it touches), the native methods
  of \<open>Array.prototype\<close> (new elements and result), the keys of \<open>Object.prototype\<close>,
  the conversion of a key to a property name, and \<open>isValidArrayIndex\<close> of
  \<open>shared/util\<close> (with the index a valid key denotes).
\<close>

record env =
  production :: bool
  async_config :: bool
  isServerRendering :: bool
  getter :: "wid \<Rightarrow> rstate \<Rightarrow> getter_run"
  traverse :: "jsval \<Rightarrow> rstate \<Rightarrow> depid list"
  native :: "array_method \<Rightarrow> jsval list \<Rightarrow> jsval list \<Rightarrow> jsval list \<times> jsval"
  inObjectPrototype :: "string \<Rightarrow> bool"
  toPropertyName :: "jsval \<Rightarrow> string"
  isValidArrayIndex :: "jsval \<Rightarrow> nat option"

definition say :: "event \<Rightarrow> rstate \<Rightarrow> rstate" where
  "say e s = s \<lparr> trace := trace s @ [e] \<rparr>"

subsection \<open>Dep (dep.js)\<close>

text \<open>
  Modelled from the spec: \<open>remove(arr, item)\<close> of \<open>shared/util\<close>, which is not among
  the sources, removes the item from the array (its first occurrence).
\<close>

definition remove_item :: "'a list \<Rightarrow> 'a \<Rightarrow> 'a list" where
  "remove_item arr item = remove1 item arr"

definition Dep_addSub :: "depid \<Rightarrow> wid \<Rightarrow> rstate \<Rightarrow> rstate" where
  "Dep_addSub d sub s = s \<lparr> dep_subs := (dep_subs s)(d := dep_subs s d @ [sub]) \<rparr>"

definition Dep_removeSub :: "depid \<Rightarrow> wid \<Rightarrow> rstate \<Rightarrow> rstate" where
  "Dep_removeSub d sub s = s \<lparr> dep_subs := (dep_subs s)(d := remove_item (dep_subs s d) sub) \<rparr>"

definition pushTarget :: "wid option \<Rightarrow> rstate \<Rightarrow> rstate" where
  "pushTarget t s = s \<lparr> targetStack := targetStack s @ [t], target := t \<rparr>"

definition popTarget :: "rstate \<Rightarrow> rstate" where
  "popTarget s =
     (let st = butlast (targetStack s)
      in s \<lparr> targetStack := st, target := (if st = [] then None else last st) \<rparr>)"

subsection \<open>Watcher (watcher.js)\<close>

definition Watcher_addDep :: "wid \<Rightarrow> depid \<Rightarrow> rstate \<Rightarrow> rstate" where
  "Watcher_addDep w d s =
     (let this = watchers s w in
      if d \<notin> newDepIds this then
        (let s1 = s \<lparr> watchers := (watchers s)
                   (w := this \<lparr> newDepIds := insert d (newDepIds this),
                                newDeps := newDeps this @ [d] \<rparr>) \<rparr>
         in if d \<notin> depIds this then Dep_addSub d w s1 else s1)
      else s)"

definition Dep_depend :: "depid \<Rightarrow> rstate \<Rightarrow> rstate" where
  "Dep_depend d s = (case target s of None \<Rightarrow> s | Some t \<Rightarrow> Watcher_addDep t d s)"

text \<open>\<open>while (i--)\<close> visits \<open>deps\<close> from the last to the first.\<close>

definition Watcher_cleanupDeps :: "wid \<Rightarrow> rstate \<Rightarrow> rstate" where
  "Watcher_cleanupDeps w s =
     (let this = watchers s w;
          s1 = fold (\<lambda>d st. if d \<notin> newDepIds this then Dep_removeSub d w st else st)
                 (rev (deps this)) s
      in s1 \<lparr> watchers := (watchers s1)
                (w := this \<lparr> depIds := newDepIds this, newDepIds := {},
                             deps := newDeps this, newDeps := [] \<rparr>) \<rparr>)"

definition Watcher_teardown :: "wid \<Rightarrow> rstate \<Rightarrow> rstate" where
  "Watcher_teardown w s =
     (let this = watchers s w in
      if active this then
        (let vm = w_vm this;
             s1 = (if \<not> vm_isBeingDestroyed s vm
                   then s \<lparr> vm_watchers := (vm_watchers s)(vm := remove_item (vm_watchers s vm) w) \<rparr>
                   else s);
             s2 = fold (\<lambda>d st. Dep_removeSub d w st) (rev (deps this)) s1
         in s2 \<lparr> watchers := (watchers s2)(w := (watchers s2 w) \<lparr> active := False \<rparr>) \<rparr>)
      else s)"

text \<open>
  \<open>get\<close>: the getter runs between \<open>pushTarget(this)\<close> and the \<open>finally\<close> block. When it
  throws, a user watcher hands the error to \<open>handleError\<close> and returns \<open>undefined\<close>, any
  other watcher throws again after the \<open>finally\<close> block has run.
\<close>

definition get_try :: "env \<Rightarrow> wid \<Rightarrow> rstate \<Rightarrow> (error + jsval) \<times> rstate" where
  "get_try env w s1 =
     (let g = getter env w s1;
          s2 = fold Dep_depend (reads g) (say (GetterCall w) s1)
      in case outcome g of
           Some v \<Rightarrow> (Inr v, s2)
         | None \<Rightarrow> if user (watchers s2 w) then (Inr Undefined, say (HandleError w) s2)
                   else (Inl UserError, s2))"

definition Watcher_get :: "env \<Rightarrow> wid \<Rightarrow> rstate \<Rightarrow> (error + jsval) \<times> rstate" where
  "Watcher_get env w s =
     (let s1 = pushTarget (Some w) s;
          (res, s3) = get_try env w s1;
          val = (case res of Inr v \<Rightarrow> v | Inl e \<Rightarrow> Undefined);
          s4 = (if deep (watchers s3 w) then fold Dep_depend (traverse env val s3) s3 else s3);
          s5 = popTarget s4;
          s6 = Watcher_cleanupDeps w s5
      in (res, s6))"

text \<open>
  The Deps whose \<open>depend()\<close> is called while \<open>get\<close> runs from the state \<open>s\<close>: those the
  getter reads, then those \<open>traverse\<close> touches when the watcher is deep.
\<close>

definition reads_during_get :: "env \<Rightarrow> wid \<Rightarrow> rstate \<Rightarrow> depid list" where
  "reads_during_get env w s =
     (let s1 = pushTarget (Some w) s;
          (res, s3) = get_try env w s1;
          val = (case res of Inr v \<Rightarrow> v | Inl e \<Rightarrow> Undefined)
      in reads (getter env w s1)
         @ (if deep (watchers s3 w) then traverse env val s3 else []))"

text \<open>
  \<open>run\<close>: the callback is user code; its call is recorded. (A user watcher's callback
  runs under \<open>try\<close>/\<open>catch\<close>.)
\<close>

definition Watcher_run :: "env \<Rightarrow> wid \<Rightarrow> rstate \<Rightarrow> (error + unit) \<times> rstate" where
  "Watcher_run env w s =
     (if active (watchers s w) then
        (case Watcher_get env w s of
           (Inl e, s1) \<Rightarrow> (Inl e, s1)
         | (Inr val, s1) \<Rightarrow>
             (let this = watchers s1 w in
              if \<not> strict_eq val (wvalue this) \<or> isObject val \<or> deep this then
                (let oldValue = wvalue this;
                     s2 = s1 \<lparr> watchers := (watchers s1)(w := this \<lparr> wvalue := val \<rparr>) \<rparr>
                 in (Inr (), say (CbCall w val oldValue) s2))
              else (Inr (), s1)))
      else (Inr (), s))"

definition Watcher_update :: "env \<Rightarrow> wid \<Rightarrow> rstate \<Rightarrow> (error + unit) \<times> rstate" where
  "Watcher_update env w s =
     (let this = watchers s w in
      if lazy this then (Inr (), s \<lparr> watchers := (watchers s)(w := this \<lparr> dirty := True \<rparr>) \<rparr>)
      else if sync this then Watcher_run env w s
      else (Inr (), say (QueueWatcher w) s))"

definition Watcher_evaluate :: "env \<Rightarrow> wid \<Rightarrow> rstate \<Rightarrow> (error + unit) \<times> rstate" where
  "Watcher_evaluate env w s =
     (case Watcher_get env w s of
        (Inl e, s1) \<Rightarrow> (Inl e, s1)
      | (Inr val, s1) \<Rightarrow>
          (Inr (), s1 \<lparr> watchers := (watchers s1)(w := (watchers s1 w) \<lparr> wvalue := val, dirty := False \<rparr>) \<rparr>))"

definition Watcher_depend :: "wid \<Rightarrow> rstate \<Rightarrow> rstate" where
  "Watcher_depend w s = fold Dep_depend (rev (deps (watchers s w))) s"

text \<open>
  \<open>Dep.notify\<close>: the subscribers of the moment of the call are updated in turn; an
  exception ends the loop. Outside production and without \<open>config.async\<close> they are
  sorted by id first.
\<close>

fun update_each :: "env \<Rightarrow> wid list \<Rightarrow> rstate \<Rightarrow> (error + unit) \<times> rstate" where
  "update_each env [] s = (Inr (), s)"
| "update_each env (w # ws) s =
     (case Watcher_update env w s of
        (Inl e, s1) \<Rightarrow> (Inl e, s1)
      | (Inr u, s1) \<Rightarrow> update_each env ws s1)"

definition Dep_notify :: "env \<Rightarrow> depid \<Rightarrow> rstate \<Rightarrow> (error + unit) \<times> rstate" where
  "Dep_notify env d s =
     (let subs = dep_subs s d;
          subs = (if \<not> production env \<and> \<not> async_config env then sort subs else subs)
      in update_each env subs (say (Notify d) s))"

text \<open>
  The Watcher constructor with its options (\<open>deep\<close>, \<open>user\<close>, \<open>lazy\<close>, \<open>sync\<close>):
  the new watcher gets the next id, joins \<open>vm._watchers\<close>, and is evaluated at once
  unless it is lazy.
\<close>

definition Watcher_new ::
  "env \<Rightarrow> vmid \<Rightarrow> bool \<Rightarrow> bool \<Rightarrow> bool \<Rightarrow> bool \<Rightarrow> bool \<Rightarrow> rstate \<Rightarrow> (error + wid) \<times> rstate" where
  "Watcher_new env vm o_deep o_user o_lazy o_sync isRenderWatcher s =
     (let w = watcher_uid s + 1;
          s1 = (if isRenderWatcher then s \<lparr> vm_watcher := (vm_watcher s)(vm := Some w) \<rparr> else s);
          s2 = s1 \<lparr> vm_watchers := (vm_watchers s1)(vm := vm_watchers s1 vm @ [w]),
                    watcher_uid := w \<rparr>;
          this = \<lparr> w_vm = vm, deep = o_deep, user = o_user, lazy = o_lazy, sync = o_sync,
                   dirty = o_lazy, active = True, deps = [], newDeps = [], depIds = {},
                   newDepIds = {}, wvalue = Undefined \<rparr>;
          s3 = s2 \<lparr> watchers := (watchers s2)(w := this) \<rparr>
      in if o_lazy then (Inr w, s3)
         else (case Watcher_get env w s3 of
                 (Inl e, s4) \<Rightarrow> (Inl e, s4)
               | (Inr val, s4) \<Rightarrow>
                   (Inr w, s4 \<lparr> watchers := (watchers s4)(w := (watchers s4 w) \<lparr> wvalue := val \<rparr>) \<rparr>)))"

subsection \<open>Computed properties (src/core/instance/state.js)\<close>

text \<open>\<open>computedGetter\<close> of \<open>createComputedGetter(key)\<close>, called on the instance \<open>vm\<close>.\<close>

definition computedGetter :: "env \<Rightarrow> string \<Rightarrow> vmid \<Rightarrow> rstate \<Rightarrow> (error + jsval) \<times> rstate" where
  "computedGetter env k vm s =
     (case (case vm_computedWatchers s vm of None \<Rightarrow> None | Some ws \<Rightarrow> map_of ws k) of
        None \<Rightarrow> (Inr Undefined, s)
      | Some w \<Rightarrow>
          (case (if dirty (watchers s w) then Watcher_evaluate env w s else (Inr (), s)) of
             (Inl e, s1) \<Rightarrow> (Inl e, s1)
           | (Inr u, s1) \<Rightarrow>
               (let s2 = (if target s1 \<noteq> None then Watcher_depend w s1 else s1)
                in (Inr (wvalue (watchers s2 w)), s2))))"

subsection \<open>The subscription graph\<close>

text \<open>
  The book-keeping every reachable state satisfies: the two id sets of a watcher are
  the ids of its two dep arrays, and no watcher occurs twice in the \<open>subs\<close> of a Dep.
\<close>

definition ids_ok :: "rstate \<Rightarrow> bool" where
  "ids_ok s \<longleftrightarrow>
     (\<forall>w. depIds (watchers s w) = set (deps (watchers s w))
          \<and> newDepIds (watchers s w) = set (newDeps (watchers s w)))
     \<and> (\<forall>d. distinct (dep_subs s d))"

text \<open>
  The invariant of the spec, read while a \<open>get\<close> may be in progress:
  \<open>w \<in> d.subs\<close> exactly when \<open>d\<close> is in one of the two dep arrays of \<open>w\<close> (outside a
  \<open>get\<close> the array \<open>newDeps\<close> is empty and this is \<open>w \<in> d.subs \<longleftrightarrow> d \<in> w.deps\<close>).
\<close>

definition bidirectional :: "rstate \<Rightarrow> bool" where
  "bidirectional s \<longleftrightarrow>
     (\<forall>d w. w \<in> set (dep_subs s d) \<longleftrightarrow>
            d \<in> set (deps (watchers s w)) \<union> set (newDeps (watchers s w)))"

text \<open>
  What the code keeps: every subscriber of a Dep has the Dep in its arrays, and every
  active watcher is a subscriber of each Dep of its arrays.
\<close>

definition graph_inv :: "rstate \<Rightarrow> bool" where
  "graph_inv s \<longleftrightarrow>
     ids_ok s
     \<and> (\<forall>d w. w \<in> set (dep_subs s d) \<longrightarrow>
            d \<in> set (deps (watchers s w)) \<union> set (newDeps (watchers s w)))
     \<and> (\<forall>d w. active (watchers s w) \<longrightarrow>
            d \<in> set (deps (watchers s w)) \<union> set (newDeps (watchers s w)) \<longrightarrow>
            w \<in> set (dep_subs s d))"

text \<open>The state before anything is created, and a watcher slot that was never used.\<close>

definition blankWatcher :: watcher where
  "blankWatcher =
     \<lparr> w_vm = 0, deep = False, user = False, lazy = False, sync = False, dirty = False,
       active = False, deps = [], newDeps = [], depIds = {}, newDepIds = {},
       wvalue = Undefined \<rparr>"

definition blankObject :: jsobj where
  "blankObject =
     \<lparr> kind = PlainObject, props = [], elems = [], inherited = [], ob = None, isVue = False,
       extensible = True \<rparr>"

definition init_state :: rstate where
  "init_state =
     \<lparr> dep_subs = (\<lambda>d. []), dep_uid = 0, watchers = (\<lambda>w. blankWatcher), watcher_uid = 0,
       target = None, targetStack = [], vm_watchers = (\<lambda>vm. []), vm_watcher = (\<lambda>vm. None),
       vm_isBeingDestroyed = (\<lambda>vm. False), vm_computedWatchers = (\<lambda>vm. None),
       heap = (\<lambda>r. blankObject), observers = (\<lambda>r. \<lparr> ob_value = 0, ob_dep = 0, vmCount = 0 \<rparr>),
       ob_uid = 0, shouldObserve = True,
       closures = (\<lambda>c. \<lparr> c_dep = 0, c_val = Undefined, c_childOb = None, c_getter = None,
                          c_setter = None, c_customSetter = False, c_shallow = False \<rparr>),
       closure_uid = 0, cells = (\<lambda>c. Undefined), trace = [] \<rparr>"

text \<open>
  An environment for examples: a development build whose getters all read the Dep 0
  and return 1; the native array methods are those of \<open>native_array\<close>.
\<close>

fun native_array :: "array_method \<Rightarrow> jsval list \<Rightarrow> jsval list \<Rightarrow> jsval list \<times> jsval" where
  "native_array Push xs args = (xs @ args, Num (Fin (int (length (xs @ args)))))"
| "native_array Unshift xs args = (args @ xs, Num (Fin (int (length (args @ xs)))))"
| "native_array Pop xs args = (butlast xs, if xs = [] then Undefined else last xs)"
| "native_array Shift xs args = (tl xs, if xs = [] then Undefined else hd xs)"
| "native_array Reverse xs args = (rev xs, Undefined)"
| "native_array m xs args = (xs, Undefined)"

definition env0 :: env where
  "env0 =
     \<lparr> production = False, async_config = True, isServerRendering = False,
       getter = (\<lambda>w s. \<lparr> reads = [0], outcome = Some (Num (Fin 1)) \<rparr>),
       traverse = (\<lambda>v s. []),
       native = native_array,
       inObjectPrototype = (\<lambda>k. k \<in> set [''constructor'', ''toString'', ''valueOf'']),
       toPropertyName = (\<lambda>v. case v of Str k \<Rightarrow> k | _ \<Rightarrow> ''?''),
       isValidArrayIndex = (\<lambda>v. case v of Num (Fin i) \<Rightarrow> if 0 \<le> i then Some (nat i) else None
                                        | _ \<Rightarrow> None) \<rparr>"

text \<open>The state after a user watcher of component 0 was created in \<open>env0\<close>.\<close>

definition one_watcher :: rstate where
  "one_watcher = snd (Watcher_new env0 0 False True False False False init_state)"

text \<open>The environment \<open>env0\<close> with getters that read the given Deps.\<close>

definition env_reading :: "depid list \<Rightarrow> env" where
  "env_reading ds = env0 \<lparr> getter := (\<lambda>w s. \<lparr> reads = ds, outcome = Some (Num (Fin 1)) \<rparr>) \<rparr>"

text \<open>
  \<open>initComputed\<close> for one key of the \<open>computed\<close> option, outside server rendering: a
  lazy watcher (\<open>computedWatcherOptions = { lazy: true }\<close>) is created and stored in
  \<open>vm._computedWatchers[key]\<close>.
\<close>

definition initComputed_key :: "env \<Rightarrow> vmid \<Rightarrow> string \<Rightarrow> rstate \<Rightarrow> rstate" where
  "initComputed_key env vm k s =
     (case Watcher_new env vm False False True False False s of
        (Inr w, s1) \<Rightarrow>
          s1 \<lparr> vm_computedWatchers := (vm_computedWatchers s1)
                 (vm := Some (AList.update k w
                    (case vm_computedWatchers s1 vm of None \<Rightarrow> [] | Some ws \<Rightarrow> ws))) \<rparr>
      | (Inl e, s1) \<Rightarrow> s1)"

text \<open>The computed property \<open>k\<close> of \<open>vm\<close> read \<open>n\<close> times in a row.\<close>

fun read_times :: "env \<Rightarrow> string \<Rightarrow> vmid \<Rightarrow> nat \<Rightarrow> rstate \<Rightarrow> rstate" where
  "read_times env k vm 0 s = s"
| "read_times env k vm (Suc n) s = read_times env k vm n (snd (computedGetter env k vm s))"

text \<open>How often the user getter of the watcher \<open>w\<close> has been called.\<close>

definition getter_calls :: "wid \<Rightarrow> rstate \<Rightarrow> nat" where
  "getter_calls w s = count_list (trace s) (GetterCall w)"

text \<open>The environment \<open>env0\<close> with getters that throw.\<close>

definition env_throwing :: env where
  "env_throwing = env0 \<lparr> getter := (\<lambda>w s. \<lparr> reads = [0], outcome = None \<rparr>) \<rparr>"

text \<open>The state after the computed property \<open>sum\<close> of component 0 was initialised.\<close>

definition computed_state :: "env \<Rightarrow> rstate" where
  "computed_state env = initComputed_key env 0 ''sum'' init_state"

subsection \<open>Observer and defineReactive (observer/index.js)\<close>

text \<open>A loop whose body can throw: the first exception ends it.\<close>

primrec forE :: "('a \<Rightarrow> 's \<Rightarrow> (error + unit) \<times> 's) \<Rightarrow> 'a list \<Rightarrow> 's \<Rightarrow> (error + unit) \<times> 's" where
  "forE f [] s = (Inr (), s)"
| "forE f (x # xs) s =
     (case f x s of
        (Inl e, s1) \<Rightarrow> (Inl e, s1)
      | (Inr u, s1) \<Rightarrow> forE f xs s1)"

definition new_Dep :: "rstate \<Rightarrow> depid \<times> rstate" where
  "new_Dep s = (dep_uid s, s \<lparr> dep_uid := dep_uid s + 1, dep_subs := (dep_subs s)(dep_uid s := []) \<rparr>)"

text \<open>
  \<open>dependArray\<close>. The arrays of the heap can contain one another, so the recursion
  takes fuel, one unit for each level of nesting; \<open>e && e.__ob__\<close> holds of the
  observed objects only.
\<close>

primrec dependArray :: "nat \<Rightarrow> jsval list \<Rightarrow> rstate \<Rightarrow> (error + unit) \<times> rstate" where
  "dependArray 0 es s = (Inl OutOfFuel, s)"
| "dependArray (Suc n) es s =
     forE (\<lambda>e st.
            (let st1 = (case e of
                          Ref r \<Rightarrow> (case ob (heap st r) of
                                     Some obv \<Rightarrow> Dep_depend (ob_dep (observers st obv)) st
                                   | None \<Rightarrow> st)
                        | _ \<Rightarrow> st)
             in case e of
                  Ref r \<Rightarrow> if kind (heap st1 r) = ArrayObject
                           then dependArray n (elems (heap st1 r)) st1 else (Inr (), st1)
                | _ \<Rightarrow> (Inr (), st1))) es s"

text \<open>
  Calling the \<open>get\<close> function of an accessor. For \<open>reactiveGetter\<close> the closure \<open>c\<close>
  gives \<open>getter\<close>, \<open>val\<close>, \<open>dep\<close> and \<open>childOb\<close>. A getter can call the getter its
  closure captured: one unit of fuel for each.
\<close>

primrec call_get :: "nat \<Rightarrow> getfn \<Rightarrow> rstate \<Rightarrow> (error + jsval) \<times> rstate" where
  "call_get 0 g s = (Inl OutOfFuel, s)"
| "call_get (Suc n) g s =
     (case g of
        UserGet f c \<Rightarrow> (Inr (f (cells s c)), s)
      | ReactiveGet c \<Rightarrow>
          (case (case c_getter (closures s c) of
                   Some g1 \<Rightarrow> call_get n g1 s
                 | None \<Rightarrow> (Inr (c_val (closures s c)), s)) of
             (Inl e, s1) \<Rightarrow> (Inl e, s1)
           | (Inr val, s1) \<Rightarrow>
               if target s1 \<noteq> None then
                 (let s2 = Dep_depend (c_dep (closures s1 c)) s1 in
                  case c_childOb (closures s2 c) of
                    None \<Rightarrow> (Inr val, s2)
                  | Some obv \<Rightarrow>
                      (let s3 = Dep_depend (ob_dep (observers s2 obv)) s2 in
                       case val of
                         Ref r \<Rightarrow>
                           if kind (heap s3 r) = ArrayObject then
                             (case dependArray n (elems (heap s3 r)) s3 of
                                (Inl e, s4) \<Rightarrow> (Inl e, s4)
                              | (Inr u, s4) \<Rightarrow> (Inr val, s4))
                           else (Inr val, s3)
                       | _ \<Rightarrow> (Inr val, s3)))
               else (Inr val, s1)))"

text \<open>
  \<open>obj[key]\<close> for an own property of the object \<open>r\<close>; a missing property reads as
  \<open>undefined\<close> (the values of inherited properties are not modelled).
\<close>

definition prop_read :: "nat \<Rightarrow> oref \<Rightarrow> string \<Rightarrow> rstate \<Rightarrow> (error + jsval) \<times> rstate" where
  "prop_read fuel r k s =
     (case map_of (props (heap s r)) k of
        None \<Rightarrow> (Inr Undefined, s)
      | Some (DataProp v c) \<Rightarrow> (Inr v, s)
      | Some (AccessorProp g st c) \<Rightarrow>
          (case g of None \<Rightarrow> (Inr Undefined, s) | Some gf \<Rightarrow> call_get fuel gf s))"

primrec configurable :: "jsprop \<Rightarrow> bool" where
  "configurable (DataProp v c) = c"
| "configurable (AccessorProp g st c) = c"

primrec prop_get :: "jsprop \<Rightarrow> getfn option" where
  "prop_get (DataProp v c) = None"
| "prop_get (AccessorProp g st c) = g"

primrec prop_set :: "jsprop \<Rightarrow> setfn option" where
  "prop_set (DataProp v c) = None"
| "prop_set (AccessorProp g st c) = st"

text \<open>
  \<open>observe\<close>, the Observer constructor with \<open>walk\<close> and \<open>observeArray\<close>, and
  \<open>defineReactive\<close> call one another along the references of the heap, so \<open>observe\<close>
  takes fuel, one unit for each level of nesting. The bodies of the other four come
  first, with the \<open>observe\<close> they call as the parameter \<open>observe_rec\<close>.
  \<open>defineReactive\<close> gets \<open>val\<close> as an option (\<open>None\<close> when it is called with two
  arguments). Defining a new property on an object that is not extensible is a
  TypeError.
\<close>

type_synonym observe_fn = "jsval \<Rightarrow> bool \<Rightarrow> rstate \<Rightarrow> (error + obid option) \<times> rstate"

definition defineReactive_with ::
  "observe_fn \<Rightarrow> nat \<Rightarrow> oref \<Rightarrow> string \<Rightarrow> jsval option \<Rightarrow> bool \<Rightarrow> bool \<Rightarrow> rstate
     \<Rightarrow> (error + unit) \<times> rstate" where
  "defineReactive_with observe_rec fuel r k val customSetter shallow s =
     (let (d, s0) = new_Dep s;
          property = map_of (props (heap s0 r)) k
      in if (case property of Some p \<Rightarrow> \<not> configurable p | None \<Rightarrow> False) then (Inr (), s0)
         else
           (let gt = (case property of Some p \<Rightarrow> prop_get p | None \<Rightarrow> None);
                st = (case property of Some p \<Rightarrow> prop_set p | None \<Rightarrow> None)
            in case (if (gt = None \<or> st \<noteq> None) \<and> val = None
                     then prop_read fuel r k s0
                     else (Inr (case val of Some v \<Rightarrow> v | None \<Rightarrow> Undefined), s0)) of
                 (Inl e, s1) \<Rightarrow> (Inl e, s1)
               | (Inr v, s1) \<Rightarrow>
                   (case (if shallow then (Inr None, s1) else observe_rec v False s1) of
                      (Inl e, s2) \<Rightarrow> (Inl e, s2)
                    | (Inr childOb, s2) \<Rightarrow>
                        if map_of (props (heap s2 r)) k = None \<and> \<not> extensible (heap s2 r)
                        then (Inl TypeError, s2)
                        else
                          (let c = closure_uid s2
                           in (Inr (),
                               s2 \<lparr> closure_uid := c + 1,
                                    closures := (closures s2)
                                      (c := \<lparr> c_dep = d, c_val = v, c_childOb = childOb,
                                              c_getter = gt, c_setter = st,
                                              c_customSetter = customSetter, c_shallow = shallow \<rparr>),
                                    heap := (heap s2)
                                      (r := (heap s2 r)
                                         \<lparr> props := AList.update k
                                              (AccessorProp (Some (ReactiveGet c)) (Some (ReactiveSet c)) True)
                                              (props (heap s2 r)) \<rparr>) \<rparr>)))))"

definition walk_with :: "observe_fn \<Rightarrow> nat \<Rightarrow> oref \<Rightarrow> rstate \<Rightarrow> (error + unit) \<times> rstate" where
  "walk_with observe_rec fuel r s =
     forE (\<lambda>k st. defineReactive_with observe_rec fuel r k None False False st)
       (map fst (props (heap s r))) s"

definition observeArray_with :: "observe_fn \<Rightarrow> jsval list \<Rightarrow> rstate \<Rightarrow> (error + unit) \<times> rstate" where
  "observeArray_with observe_rec items s =
     forE (\<lambda>item st. case observe_rec item False st of
                        (Inl e, st1) \<Rightarrow> (Inl e, st1)
                      | (Inr res, st1) \<Rightarrow> (Inr (), st1)) items s"

definition Observer_new_with :: "observe_fn \<Rightarrow> nat \<Rightarrow> oref \<Rightarrow> rstate \<Rightarrow> (error + obid) \<times> rstate" where
  "Observer_new_with observe_rec fuel r s =
     (let (d, s0) = new_Dep s;
          obv = ob_uid s0;
          s1 = s0 \<lparr> ob_uid := obv + 1,
                    observers := (observers s0)(obv := \<lparr> ob_value = r, ob_dep = d, vmCount = 0 \<rparr>),
                    heap := (heap s0)(r := (heap s0 r) \<lparr> ob := Some obv \<rparr>) \<rparr>
      in case (if kind (heap s1 r) = ArrayObject
               then observeArray_with observe_rec (elems (heap s1 r)) s1
               else walk_with observe_rec fuel r s1) of
           (Inl e, s2) \<Rightarrow> (Inl e, s2)
         | (Inr u, s2) \<Rightarrow> (Inr obv, s2))"

primrec observe :: "env \<Rightarrow> nat \<Rightarrow> jsval \<Rightarrow> bool \<Rightarrow> rstate \<Rightarrow> (error + obid option) \<times> rstate" where
  "observe env 0 v asRootData s = (Inl OutOfFuel, s)"
| "observe env (Suc n) v asRootData s =
     (case v of
        Ref r \<Rightarrow>
          if kind (heap s r) = VNodeObject then (Inr None, s)
          else
            (case (case ob (heap s r) of
                     Some obv \<Rightarrow> (Inr (Some obv), s)
                   | None \<Rightarrow>
                       if shouldObserve s \<and> \<not> isServerRendering env
                          \<and> (kind (heap s r) = ArrayObject \<or> kind (heap s r) = PlainObject)
                          \<and> extensible (heap s r) \<and> \<not> isVue (heap s r)
                       then (case Observer_new_with (observe env n) (Suc n) r s of
                               (Inl e, s1) \<Rightarrow> (Inl e, s1)
                             | (Inr obv, s1) \<Rightarrow> (Inr (Some obv), s1))
                       else (Inr None, s)) of
               (Inl e, s1) \<Rightarrow> (Inl e, s1)
             | (Inr None, s1) \<Rightarrow> (Inr None, s1)
             | (Inr (Some obv), s1) \<Rightarrow>
                 (Inr (Some obv),
                  if asRootData
                  then s1 \<lparr> observers := (observers s1)
                              (obv := (observers s1 obv) \<lparr> vmCount := vmCount (observers s1 obv) + 1 \<rparr>) \<rparr>
                  else s1))
      | _ \<Rightarrow> (Inr None, s))"

definition defineReactive ::
  "env \<Rightarrow> nat \<Rightarrow> oref \<Rightarrow> string \<Rightarrow> jsval option \<Rightarrow> bool \<Rightarrow> bool \<Rightarrow> rstate \<Rightarrow> (error + unit) \<times> rstate" where
  "defineReactive env fuel = defineReactive_with (observe env fuel) fuel"

definition observeArray :: "env \<Rightarrow> nat \<Rightarrow> jsval list \<Rightarrow> rstate \<Rightarrow> (error + unit) \<times> rstate" where
  "observeArray env fuel = observeArray_with (observe env fuel)"

text \<open>
  Calling the \<open>set\<close> function of an accessor; for \<open>reactiveSetter\<close> the value is
  compared with the current one, stored, observed, and the Dep of the key notified.
\<close>

primrec call_set :: "env \<Rightarrow> nat \<Rightarrow> setfn \<Rightarrow> jsval \<Rightarrow> rstate \<Rightarrow> (error + unit) \<times> rstate" where
  "call_set env 0 sf newVal s = (Inl OutOfFuel, s)"
| "call_set env (Suc n) sf newVal s =
     (case sf of
        UserSet f c \<Rightarrow> (Inr (), s \<lparr> cells := (cells s)(c := f newVal (cells s c)) \<rparr>)
      | ReactiveSet c \<Rightarrow>
          (case (case c_getter (closures s c) of
                   Some g \<Rightarrow> call_get (Suc n) g s
                 | None \<Rightarrow> (Inr (c_val (closures s c)), s)) of
             (Inl e, s1) \<Rightarrow> (Inl e, s1)
           | (Inr val, s1) \<Rightarrow>
               if strict_eq newVal val \<or> (\<not> strict_eq newVal newVal \<and> \<not> strict_eq val val)
               then (Inr (), s1)
               else
                 (let s2 = (if \<not> production env \<and> c_customSetter (closures s1 c)
                            then say CustomSetterCall s1 else s1)
                  in if c_getter (closures s2 c) \<noteq> None \<and> c_setter (closures s2 c) = None
                     then (Inr (), s2)
                     else
                       (case (case c_setter (closures s2 c) of
                                Some st \<Rightarrow> call_set env n st newVal s2
                              | None \<Rightarrow>
                                  (Inr (), s2 \<lparr> closures := (closures s2)
                                                (c := (closures s2 c) \<lparr> c_val := newVal \<rparr>) \<rparr>)) of
                          (Inl e, s3) \<Rightarrow> (Inl e, s3)
                        | (Inr u, s3) \<Rightarrow>
                            (case (if c_shallow (closures s3 c) then (Inr None, s3)
                                   else observe env (Suc n) newVal False s3) of
                               (Inl e, s4) \<Rightarrow> (Inl e, s4)
                             | (Inr childOb, s4) \<Rightarrow>
                                 Dep_notify env (c_dep (closures s4 c))
                                   (s4 \<lparr> closures := (closures s4)
                                          (c := (closures s4 c) \<lparr> c_childOb := childOb \<rparr>) \<rparr>))))))"

text \<open>
  \<open>obj[key] = val\<close> in strict mode, for the object \<open>r\<close> and its own properties:
  assigning to an accessor without a setter, or adding a property to an object that
  is not extensible, is a TypeError.
\<close>

definition prop_write :: "env \<Rightarrow> nat \<Rightarrow> oref \<Rightarrow> string \<Rightarrow> jsval \<Rightarrow> rstate \<Rightarrow> (error + unit) \<times> rstate" where
  "prop_write env fuel r k v s =
     (case map_of (props (heap s r)) k of
        None \<Rightarrow>
          if extensible (heap s r)
          then (Inr (), s \<lparr> heap := (heap s)
                   (r := (heap s r) \<lparr> props := AList.update k (DataProp v True) (props (heap s r)) \<rparr>) \<rparr>)
          else (Inl TypeError, s)
      | Some (DataProp old c) \<Rightarrow>
          (Inr (), s \<lparr> heap := (heap s)
              (r := (heap s r) \<lparr> props := AList.update k (DataProp v c) (props (heap s r)) \<rparr>) \<rparr>)
      | Some (AccessorProp g st c) \<Rightarrow>
          (case st of None \<Rightarrow> (Inl TypeError, s) | Some sf \<Rightarrow> call_set env fuel sf v s))"

subsection \<open>The wrapped array methods (observer/array.js)\<close>

text \<open>
  \<open>mutator\<close> for the method \<open>m\<close>, called on the array \<open>this\<close>. The native method is
  the environment's; its call and \<open>ob.dep.notify()\<close> are recorded in the trace.
  Reading a field of a missing \<open>__ob__\<close> is a TypeError.
\<close>

definition inserted :: "array_method \<Rightarrow> jsval list \<Rightarrow> jsval list option" where
  "inserted m args =
     (case m of
        Push \<Rightarrow> Some args
      | Unshift \<Rightarrow> Some args
      | Splice \<Rightarrow> Some (drop 2 args)
      | _ \<Rightarrow> None)"

definition mutator ::
  "env \<Rightarrow> nat \<Rightarrow> array_method \<Rightarrow> oref \<Rightarrow> jsval list \<Rightarrow> rstate \<Rightarrow> (error + jsval) \<times> rstate" where
  "mutator env fuel m this args s =
     (let (xs, result) = native env m (elems (heap s this)) args;
          s1 = say (NativeCall m args)
                 (s \<lparr> heap := (heap s)(this := (heap s this) \<lparr> elems := xs \<rparr>) \<rparr>)
      in case ob (heap s1 this) of
           None \<Rightarrow> (Inl TypeError, s1)
         | Some obv \<Rightarrow>
             (case (case inserted m args of
                      Some items \<Rightarrow> observeArray env fuel items s1
                    | None \<Rightarrow> (Inr (), s1)) of
                (Inl e, s2) \<Rightarrow> (Inl e, s2)
              | (Inr u, s2) \<Rightarrow>
                  (case Dep_notify env (ob_dep (observers s2 obv)) s2 of
                     (Inl e, s3) \<Rightarrow> (Inl e, s3)
                   | (Inr u, s3) \<Rightarrow> (Inr result, s3))))"

subsection \<open>set (observer/index.js)\<close>

text \<open>
  \<open>key in target\<close> for an object: an own property, the hidden \<open>__ob__\<close> of an observed
  object, a key the object inherits, or a key of \<open>Object.prototype\<close>.
\<close>

definition key_in :: "env \<Rightarrow> string \<Rightarrow> jsobj \<Rightarrow> bool" where
  "key_in env k obj \<longleftrightarrow>
     map_of (props obj) k \<noteq> None \<or> (k = ''__ob__'' \<and> ob obj \<noteq> None)
     \<or> k \<in> set (inherited obj) \<or> inObjectPrototype env k"

text \<open>
  \<open>set(target, key, val)\<close>. For a target that is not an object, \<open>key in target\<close> is a
  TypeError. The \<open>splice\<close> of an observed array is the wrapped one.
\<close>

definition warn_set_primitive :: string where
  "warn_set_primitive = ''Cannot set reactive property on undefined, null, or primitive value''"

definition warn_set_root :: string where
  "warn_set_root = ''Avoid adding reactive properties to a Vue instance or its root $data at runtime''"

definition set_vue :: "env \<Rightarrow> nat \<Rightarrow> jsval \<Rightarrow> jsval \<Rightarrow> jsval \<Rightarrow> rstate \<Rightarrow> (error + jsval) \<times> rstate" where
  "set_vue env fuel target_v k val s =
     (let s0 = (if \<not> production env \<and> (isUndef target_v \<or> isPrimitive target_v)
                then say (Warn warn_set_primitive) s
                else s)
      in case target_v of
           Ref r \<Rightarrow>
             (case (if kind (heap s0 r) = ArrayObject then isValidArrayIndex env k else None) of
                Some i \<Rightarrow>
                  (let xs = elems (heap s0 r);
                       s1 = s0 \<lparr> heap := (heap s0)
                              (r := (heap s0 r) \<lparr> elems := xs @ replicate (i - length xs) Undefined \<rparr>) \<rparr>;
                       args = [k, Num (Fin 1), val]
                   in case (if ob (heap s1 r) \<noteq> None then mutator env fuel Splice r args s1
                            else (let (ys, res) = native env Splice (elems (heap s1 r)) args
                                  in (Inr res, say (NativeCall Splice args)
                                        (s1 \<lparr> heap := (heap s1)(r := (heap s1 r) \<lparr> elems := ys \<rparr>) \<rparr>)))) of
                        (Inl e, s2) \<Rightarrow> (Inl e, s2)
                      | (Inr res, s2) \<Rightarrow> (Inr val, s2))
              | None \<Rightarrow>
                  (let name = toPropertyName env k in
                   if key_in env name (heap s0 r) \<and> \<not> inObjectPrototype env name then
                     (case prop_write env fuel r name val s0 of
                        (Inl e, s1) \<Rightarrow> (Inl e, s1)
                      | (Inr u, s1) \<Rightarrow> (Inr val, s1))
                   else
                     (case ob (heap s0 r) of
                        None \<Rightarrow>
                          if isVue (heap s0 r) then
                            (Inr val, if \<not> production env
                                      then say (Warn warn_set_root) s0
                                      else s0)
                          else
                            (case prop_write env fuel r name val s0 of
                               (Inl e, s1) \<Rightarrow> (Inl e, s1)
                             | (Inr u, s1) \<Rightarrow> (Inr val, s1))
                      | Some obv \<Rightarrow>
                          if isVue (heap s0 r) \<or> 0 < vmCount (observers s0 obv) then
                            (Inr val, if \<not> production env
                                      then say (Warn warn_set_root) s0
                                      else s0)
                          else
                            (case defineReactive env fuel (ob_value (observers s0 obv)) name (Some val) False False s0 of
                               (Inl e, s1) \<Rightarrow> (Inl e, s1)
                             | (Inr u, s1) \<Rightarrow>
                                 (case Dep_notify env (ob_dep (observers s1 obv)) s1 of
                                    (Inl e, s2) \<Rightarrow> (Inl e, s2)
                                  | (Inr u, s2) \<Rightarrow> (Inr val, s2))))))
         | _ \<Rightarrow> (Inl TypeError, s0))"

text \<open>
  A production build, and a state with a Vue instance at the reference 1, with an
  observed root \<open>$data\<close> object at 2 (its observer, 0, counts one instance) and with an
  observed array at 3 (observer 1).
\<close>

definition env_production :: env where
  "env_production = env0 \<lparr> production := True \<rparr>"

definition vm_state :: rstate where
  "vm_state =
     init_state
       \<lparr> heap := (\<lambda>r. blankObject)
            (1 := blankObject \<lparr> isVue := True \<rparr>,
             2 := blankObject \<lparr> ob := Some 0 \<rparr>,
             3 := blankObject \<lparr> kind := ArrayObject, ob := Some 1,
                     elems := [Num (Fin 1), Num (Fin 2), Num (Fin 3)] \<rparr>),
         observers := (\<lambda>r. \<lparr> ob_value = 0, ob_dep = 0, vmCount = 0 \<rparr>)
            (0 := \<lparr> ob_value = 2, ob_dep = 0, vmCount = 1 \<rparr>,
             1 := \<lparr> ob_value = 3, ob_dep = 1, vmCount = 0 \<rparr>),
         ob_uid := 2, dep_uid := 2 \<rparr>"

text \<open>
  The state \<open>vm_state\<close> with one more object, at the reference 4: a plain object
  \<open>{ a: 1 }\<close> that is not observed.
\<close>

definition push_state :: rstate where
  "push_state =
     vm_state \<lparr> heap := (heap vm_state)
        (4 := blankObject \<lparr> props := [(''a'', DataProp (Num (Fin 1)) True)] \<rparr>) \<rparr>"

text \<open>
  The closure of the key of a reactive property: the property descriptor of a key that
  \<open>defineReactive\<close> defined has \<open>reactiveGetter\<close> and \<open>reactiveSetter\<close> of one call.
\<close>

fun reactive_closure :: "jsprop option \<Rightarrow> nat option" where
  "reactive_closure (Some (AccessorProp (Some (ReactiveGet c)) (Some (ReactiveSet c')) cf)) =
     (if c = c' then Some c else None)"
| "reactive_closure p = None"

text \<open>
  The state \<open>vm_state\<close> after \<open>observe\<close> of one more object, at the reference 5, with a
  data property \<open>a\<close>, an accessor \<open>b\<close> that has a getter only (it returns 1), and an
  accessor \<open>c\<close> whose setter stores 1 whatever is assigned and whose getter returns what
  is stored.
\<close>

definition accessor_state :: rstate where
  "accessor_state =
     snd (observe env0 3 (Ref 5) False
       (vm_state \<lparr> heap := (heap vm_state)
          (5 := blankObject
             \<lparr> props := [(''a'', DataProp (Num (Fin 1)) True),
                         (''b'', AccessorProp (Some (UserGet (\<lambda>x. Num (Fin 1)) 0)) None True),
                         (''c'', AccessorProp (Some (UserGet (\<lambda>x. x) 0))
                                   (Some (UserSet (\<lambda>v old. Num (Fin 1)) 0)) True)] \<rparr>) \<rparr>))"

subsection \<open>What the operations leave alone\<close>

text \<open>The Deps whose \<open>notify\<close> was called, in order.\<close>

definition notifications :: "event list \<Rightarrow> depid list" where
  "notifications tr = concat (map (\<lambda>e. case e of Notify d \<Rightarrow> [d] | _ \<Rightarrow> []) tr)"

text \<open>
  Collecting dependencies changes the watchers and the \<open>subs\<close> of the Deps, nothing
  else: the objects, the observers, the closures and the trace stay as they are.
\<close>

definition same_objects :: "rstate \<Rightarrow> rstate \<Rightarrow> bool" where
  "same_objects s s' \<longleftrightarrow>
     heap s' = heap s \<and> observers s' = observers s \<and> closures s' = closures s
     \<and> cells s' = cells s \<and> trace s' = trace s \<and> shouldObserve s' = shouldObserve s
     \<and> ob_uid s' = ob_uid s \<and> dep_uid s' = dep_uid s \<and> closure_uid s' = closure_uid s"

text \<open>
  What \<open>observe\<close> can change: it allocates Deps, observers and closures, and it marks
  and converts objects that were not observed before. An object that is observed, an
  observer and a closure that exist stay as they are, and so do the trace and, of
  every object, its kind, elements and flags. \<open>defineReactive\<close> on the object \<open>r\<close>
  does the same and changes the properties of \<open>r\<close>.
\<close>

definition obs_frame :: "oref option \<Rightarrow> rstate \<Rightarrow> rstate \<Rightarrow> bool" where
  "obs_frame except s s' \<longleftrightarrow>
     trace s' = trace s \<and> shouldObserve s' = shouldObserve s \<and> cells s' = cells s
     \<and> closure_uid s \<le> closure_uid s' \<and> (\<forall>c. c < closure_uid s \<longrightarrow> closures s' c = closures s c)
     \<and> ob_uid s \<le> ob_uid s'
     \<and> (\<forall>obv. obv < ob_uid s \<longrightarrow> ob_dep (observers s' obv) = ob_dep (observers s obv)
                                  \<and> ob_value (observers s' obv) = ob_value (observers s obv))
     \<and> (\<forall>x. Some x \<noteq> except \<longrightarrow> ob (heap s x) \<noteq> None \<longrightarrow> heap s' x = heap s x)
     \<and> (\<forall>x. ob (heap s x) \<noteq> None \<longrightarrow> ob (heap s' x) = ob (heap s x))
     \<and> (\<forall>x. kind (heap s' x) = kind (heap s x) \<and> elems (heap s' x) = elems (heap s x)
            \<and> inherited (heap s' x) = inherited (heap s x) \<and> isVue (heap s' x) = isVue (heap s x)
            \<and> extensible (heap s' x) = extensible (heap s x))"

text \<open>
  What running watchers can change: the watchers and the \<open>subs\<close> of the Deps, and the
  trace, which grows by events of the watchers (no \<open>notify\<close>, no native array method).
\<close>

definition quiet :: "event \<Rightarrow> bool" where
  "quiet e = (case e of Notify d \<Rightarrow> False | NativeCall m xs \<Rightarrow> False | _ \<Rightarrow> True)"

definition watchers_ran :: "rstate \<Rightarrow> rstate \<Rightarrow> bool" where
  "watchers_ran s s' \<longleftrightarrow>
     heap s' = heap s \<and> observers s' = observers s \<and> closures s' = closures s
     \<and> cells s' = cells s \<and> shouldObserve s' = shouldObserve s
     \<and> ob_uid s' = ob_uid s \<and> dep_uid s' = dep_uid s \<and> closure_uid s' = closure_uid s
     \<and> (\<exists>evs. trace s' = trace s @ evs \<and> list_all quiet evs)"

text \<open>The condition under which \<open>observe\<close> makes an Observer for the object \<open>r\<close>.\<close>

definition can_observe :: "env \<Rightarrow> rstate \<Rightarrow> oref \<Rightarrow> bool" where
  "can_observe env s r \<longleftrightarrow>
     kind (heap s r) \<noteq> VNodeObject \<and> shouldObserve s \<and> \<not> isServerRendering env
     \<and> (kind (heap s r) = ArrayObject \<or> kind (heap s r) = PlainObject)
     \<and> extensible (heap s r) \<and> \<not> isVue (heap s r)"

section \<open>Properties of sameVnode\<close>

lemma strict_eq_simps [simp]:
  "strict_eq (Num NaN) b = False"
  "strict_eq a (Num NaN) = False"
  "a \<noteq> Num NaN \<Longrightarrow> strict_eq a a"
  by (auto simp: strict_eq_def)

text \<open>
  C6, as stated, fails: \<open>sameVnode\<close> also accepts an asynchronous placeholder and the
  vnode with the same factory, whatever their tags, comment flags and data are.
\<close>

theorem sameVnode_async_counterexample:
  "sameVnode (\<lambda>t. False) asyncPlaceholder asyncResolved = Inr True
   \<and> tag asyncPlaceholder \<noteq> tag asyncResolved
   \<and> isComment asyncPlaceholder \<noteq> isComment asyncResolved
   \<and> (data asyncPlaceholder \<noteq> None) \<noteq> (data asyncResolved \<noteq> None)"
  by (simp add: sameVnode_def asyncPlaceholder_def asyncResolved_def blankVNode_def
      sameInputType_def isUndef_def strict_eq_def)

text \<open>
  C6, amended: \<open>sameVnode a b\<close> returns true exactly when the keys are strictly equal
  and either (1) the tags are equal, the comment flags are equal, the data are both
  defined or both undefined and, when the tag is \<open>input\<close>, the input types are strictly
  equal or both text-like, or (2) \<open>a\<close> is an asynchronous placeholder, the two vnodes have
  the same factory and that factory has no error.
\<close>

theorem sameVnode_iff:
  "sameVnode isTextInputType a b = Inr True \<longleftrightarrow>
     strict_eq (key a) (key b) \<and>
     ((tag a = tag b \<and> isComment a = isComment b \<and> (data a \<noteq> None) = (data b \<noteq> None) \<and>
       (tag a \<noteq> Some ''input'' \<or> strict_eq (inputType a) (inputType b) \<or>
        (isTextInputType (inputType a) \<and> isTextInputType (inputType b))))
      \<or> (isAsyncPlaceholder a \<and> map_option fid (asyncFactory a) = map_option fid (asyncFactory b)
          \<and> (\<exists>f. asyncFactory b = Some f \<and> isUndef (ferror f))))"
  by (auto simp: sameVnode_def sameInputType_def split: option.splits)

theorem sameVnode_iff_witness:
  "sameVnode (\<lambda>t. False) (blankVNode \<lparr> tag := Some ''input'', key := Str ''k'' \<rparr>)
      (blankVNode \<lparr> tag := Some ''input'', key := Str ''k'' \<rparr>) = Inr True
   \<and> sameVnode (\<lambda>t. False) (blankVNode \<lparr> tag := Some ''input'', key := Str ''k'' \<rparr>)
      (blankVNode \<lparr> tag := Some ''p'', key := Str ''k'' \<rparr>) \<noteq> Inr True"
  using sameVnode_iff [of "\<lambda>t. False" "blankVNode \<lparr> tag := Some ''input'', key := Str ''k'' \<rparr>"
      "blankVNode \<lparr> tag := Some ''input'', key := Str ''k'' \<rparr>"]
    sameVnode_iff [of "\<lambda>t. False" "blankVNode \<lparr> tag := Some ''input'', key := Str ''k'' \<rparr>"
      "blankVNode \<lparr> tag := Some ''p'', key := Str ''k'' \<rparr>"]
  by (simp add: blankVNode_def inputType_def strict_eq_def)

section \<open>Properties of the subscription graph\<close>

lemma one_watcher_eval:
  "dep_subs one_watcher = (\<lambda>d. [])(0 := [1])"
  "deps (watchers one_watcher 1) = [0]"
  "newDeps (watchers one_watcher 1) = []"
  "active (watchers one_watcher 1)"
  by (simp_all add: one_watcher_def Watcher_new_def Watcher_get_def get_try_def env0_def init_state_def Let_def
     pushTarget_def popTarget_def say_def Dep_depend_def Watcher_addDep_def Dep_addSub_def Watcher_cleanupDeps_def blankWatcher_def)

lemma removeSub_fields [simp]:
  "watchers (Dep_removeSub d w s) = watchers s"
  "dep_subs (Dep_removeSub d w s) = (dep_subs s)(d := remove1 w (dep_subs s d))"
  by (simp_all add: Dep_removeSub_def remove_item_def)

lemma addSub_fields [simp]:
  "watchers (Dep_addSub d w s) = watchers s"
  "dep_subs (Dep_addSub d w s) = (dep_subs s)(d := dep_subs s d @ [w])"
  by (simp_all add: Dep_addSub_def)

lemma fold_removeSub_watchers [simp]:
  "watchers (fold (\<lambda>d st. if P d then Dep_removeSub d w st else st) ds s) = watchers s"
  by (induction ds arbitrary: s) auto

lemma fold_removeSub_set:
  "distinct (dep_subs s d') \<Longrightarrow>
   set (dep_subs (fold (\<lambda>d st. if P d then Dep_removeSub d w st else st) ds s) d') =
     (if d' \<in> set ds \<and> P d' then set (dep_subs s d') - {w} else set (dep_subs s d'))
   \<and> distinct (dep_subs (fold (\<lambda>d st. if P d then Dep_removeSub d w st else st) ds s) d')"
proof (induction ds arbitrary: s)
  case Nil
  then show ?case by simp
next
  case (Cons a ds)
  let ?s1 = "if P a then Dep_removeSub a w s else s"
  have d1: "distinct (dep_subs ?s1 d')" using Cons.prems by auto
  have s1: "set (dep_subs ?s1 d') = (if a = d' \<and> P a then set (dep_subs s d') - {w} else set (dep_subs s d'))"
    using Cons.prems by auto
  from Cons.IH [OF d1] s1 show ?case by auto
qed

lemma addDep_graph_inv: "graph_inv s \<Longrightarrow> graph_inv (Watcher_addDep w d s)"
  unfolding graph_inv_def ids_ok_def Watcher_addDep_def Let_def
  by (auto simp: )

lemma cleanupDeps_fields:
  "watchers (Watcher_cleanupDeps w s) =
     (watchers s)(w := (watchers s w) \<lparr> depIds := newDepIds (watchers s w), newDepIds := {},
                                         deps := newDeps (watchers s w), newDeps := [] \<rparr>)"
  by (simp add: Watcher_cleanupDeps_def Let_def)

lemma cleanupDeps_subs:
  "distinct (dep_subs s d) \<Longrightarrow>
   set (dep_subs (Watcher_cleanupDeps w s) d) =
     (if d \<in> set (deps (watchers s w)) \<and> d \<notin> newDepIds (watchers s w)
      then set (dep_subs s d) - {w} else set (dep_subs s d))
   \<and> distinct (dep_subs (Watcher_cleanupDeps w s) d)"
  using fold_removeSub_set [of s d "\<lambda>d. d \<notin> newDepIds (watchers s w)" w "rev (deps (watchers s w))"]
  by (simp add: Watcher_cleanupDeps_def Let_def)

lemma cleanupDeps_graph_inv: "graph_inv s \<Longrightarrow> graph_inv (Watcher_cleanupDeps w s)"
  unfolding graph_inv_def ids_ok_def
  by (auto simp: cleanupDeps_fields cleanupDeps_subs)

lemmas fold_removeSub_all = fold_removeSub_set [where P = "\<lambda>d. True", simplified]

lemma teardown_watchers:
  "watchers (Watcher_teardown w s) =
     (if active (watchers s w) then (watchers s)(w := (watchers s w) \<lparr> active := False \<rparr>) else watchers s)"
  using fold_removeSub_watchers [where P = "\<lambda>d. True", simplified]
  by (simp add: Watcher_teardown_def Let_def)

lemma teardown_subs:
  "distinct (dep_subs s d) \<Longrightarrow>
   set (dep_subs (Watcher_teardown w s) d) =
     (if active (watchers s w) \<and> d \<in> set (deps (watchers s w))
      then set (dep_subs s d) - {w} else set (dep_subs s d))
   \<and> distinct (dep_subs (Watcher_teardown w s) d)"
  using fold_removeSub_all [where d' = d and ds = "rev (deps (watchers s w))" and w = w]
  by (simp add: Watcher_teardown_def Let_def)

lemma teardown_graph_inv: "graph_inv s \<Longrightarrow> graph_inv (Watcher_teardown w s)"
  unfolding graph_inv_def ids_ok_def
  by (auto simp: teardown_watchers teardown_subs)

lemma addDep_bidirectional:
  "ids_ok s \<Longrightarrow> bidirectional s \<Longrightarrow> bidirectional (Watcher_addDep w d s) \<and> ids_ok (Watcher_addDep w d s)"
  unfolding bidirectional_def ids_ok_def Watcher_addDep_def Let_def
  by auto

lemma cleanupDeps_bidirectional:
  "ids_ok s \<Longrightarrow> bidirectional s \<Longrightarrow> bidirectional (Watcher_cleanupDeps w s) \<and> ids_ok (Watcher_cleanupDeps w s)"
  unfolding bidirectional_def ids_ok_def
  by (auto simp: cleanupDeps_fields cleanupDeps_subs)

lemma one_watcher_watchers:
  "watchers one_watcher = (\<lambda>w. blankWatcher)(1 := \<lparr> w_vm = 0, deep = False, user = True, lazy = False, sync = False,
                   dirty = False, active = True, deps = [0], newDeps = [], depIds = {0},
                   newDepIds = {}, wvalue = Num (Fin 1) \<rparr>)"
  by (simp add: one_watcher_def Watcher_new_def Watcher_get_def get_try_def env0_def init_state_def Let_def
     pushTarget_def popTarget_def say_def Dep_depend_def Watcher_addDep_def Dep_addSub_def Watcher_cleanupDeps_def blankWatcher_def)

lemma one_watcher_ok: "ids_ok one_watcher \<and> bidirectional one_watcher"
  by (auto simp: ids_ok_def bidirectional_def one_watcher_watchers one_watcher_eval blankWatcher_def)

lemma teardown_cex: "\<not> bidirectional (Watcher_teardown 1 one_watcher)"
proof
  assume "bidirectional (Watcher_teardown 1 one_watcher)"
  then have "(1 \<in> set (dep_subs (Watcher_teardown 1 one_watcher) 0)) =
       (0 \<in> set (deps (watchers (Watcher_teardown 1 one_watcher) 1)) \<union> set (newDeps (watchers (Watcher_teardown 1 one_watcher) 1)))"
    unfolding bidirectional_def by blast
  then show False
    by (simp add: teardown_watchers teardown_subs one_watcher_watchers one_watcher_eval)
qed

lemma pushTarget_fields [simp]:
  "watchers (pushTarget t s) = watchers s"
  "dep_subs (pushTarget t s) = dep_subs s"
  "target (pushTarget t s) = t"
  "trace (pushTarget t s) = trace s"
  by (simp_all add: pushTarget_def)

lemma popTarget_fields [simp]:
  "watchers (popTarget s) = watchers s"
  "dep_subs (popTarget s) = dep_subs s"
  "trace (popTarget s) = trace s"
  by (simp_all add: popTarget_def Let_def)

lemma say_fields [simp]:
  "watchers (say e s) = watchers s"
  "dep_subs (say e s) = dep_subs s"
  "target (say e s) = target s"
  "trace (say e s) = trace s @ [e]"
  by (simp_all add: say_def)

lemma ids_ok_cong:
  "watchers s' = watchers s \<Longrightarrow> dep_subs s' = dep_subs s \<Longrightarrow> ids_ok s' = ids_ok s"
  by (simp add: ids_ok_def)

lemma addDep_facts:
  "target (Watcher_addDep w d s) = target s"
  "trace (Watcher_addDep w d s) = trace s"
  "deps (watchers (Watcher_addDep w d s) w') = deps (watchers s w')"
  "deep (watchers (Watcher_addDep w d s) w') = deep (watchers s w')"
  "user (watchers (Watcher_addDep w d s) w') = user (watchers s w')"
  by (auto simp: Watcher_addDep_def Let_def Dep_addSub_def)

lemma addDep_newDeps_set:
  "ids_ok s \<Longrightarrow> set (newDeps (watchers (Watcher_addDep w d s) w)) = insert d (set (newDeps (watchers s w)))"
  by (auto simp: Watcher_addDep_def Let_def Dep_addSub_def ids_ok_def)

lemma graph_inv_ids_ok: "graph_inv s \<Longrightarrow> ids_ok s"
  by (simp add: graph_inv_def)

lemma fold_depend:
  "target s = Some w \<Longrightarrow> graph_inv s \<Longrightarrow>
   target (fold Dep_depend ds s) = Some w \<and> graph_inv (fold Dep_depend ds s)
   \<and> set (newDeps (watchers (fold Dep_depend ds s) w)) = set (newDeps (watchers s w)) \<union> set ds
   \<and> deps (watchers (fold Dep_depend ds s) w) = deps (watchers s w)
   \<and> deep (watchers (fold Dep_depend ds s) w) = deep (watchers s w)
   \<and> user (watchers (fold Dep_depend ds s) w) = user (watchers s w)
   \<and> trace (fold Dep_depend ds s) = trace s"
proof (induction ds arbitrary: s)
  case Nil
  then show ?case by simp
next
  case (Cons d ds)
  have step: "Dep_depend d s = Watcher_addDep w d s"
    using Cons.prems by (simp add: Dep_depend_def)
  have t: "target (Watcher_addDep w d s) = Some w"
    using Cons.prems by (simp add: addDep_facts)
  have i: "graph_inv (Watcher_addDep w d s)"
    using Cons.prems by (simp add: addDep_graph_inv)
  from Cons.IH [OF t i] show ?case
    using Cons.prems by (simp add: step addDep_facts addDep_newDeps_set graph_inv_ids_ok)
qed

lemma graph_inv_frame [simp]:
  "graph_inv (pushTarget t s) = graph_inv s"
  "graph_inv (popTarget s) = graph_inv s"
  "graph_inv (say e s) = graph_inv s"
  by (simp_all add: graph_inv_def ids_ok_def)

lemma get_try_facts:
  assumes "target s = Some w" and "graph_inv s"
  shows "target (snd (get_try env w s)) = Some w \<and> graph_inv (snd (get_try env w s))
   \<and> set (newDeps (watchers (snd (get_try env w s)) w)) = set (newDeps (watchers s w)) \<union> set (reads (getter env w s))
   \<and> deps (watchers (snd (get_try env w s)) w) = deps (watchers s w)
   \<and> deep (watchers (snd (get_try env w s)) w) = deep (watchers s w)"
proof -
  have t: "target (say (GetterCall w) s) = Some w" using assms by simp
  have g: "graph_inv (say (GetterCall w) s)" using assms by simp
  from fold_depend [OF t g, of "reads (getter env w s)"] show ?thesis
    by (auto simp: get_try_def Let_def split: option.splits)
qed

lemma get_state:
  assumes "graph_inv s"
  shows "\<exists>s5. snd (Watcher_get env w s) = Watcher_cleanupDeps w s5 \<and> graph_inv s5
    \<and> set (newDeps (watchers s5 w)) = set (newDeps (watchers s w)) \<union> set (reads_during_get env w s)
    \<and> deps (watchers s5 w) = deps (watchers s w)"
proof -
  let ?s1 = "pushTarget (Some w) s"
  let ?s3 = "snd (get_try env w ?s1)"
  let ?val = "case fst (get_try env w ?s1) of Inr v \<Rightarrow> v | Inl e \<Rightarrow> Undefined"
  let ?s4 = "if deep (watchers ?s3 w) then fold Dep_depend (traverse env ?val ?s3) ?s3 else ?s3"
  have t1: "target ?s1 = Some w" by simp
  have g1: "graph_inv ?s1" using assms by simp
  note f3 = get_try_facts [OF t1 g1, of env]
  have t3: "target ?s3 = Some w" and g3: "graph_inv ?s3" using f3 by simp_all
  note f4 = fold_depend [OF t3 g3, of "traverse env ?val ?s3"]
  have g4: "graph_inv ?s4" using f4 g3 by simp
  have n4: "set (newDeps (watchers ?s4 w)) = set (newDeps (watchers s w)) \<union> set (reads_during_get env w s)"
    using f3 f4 by (auto simp: reads_during_get_def Let_def split_beta)
  have d4: "deps (watchers ?s4 w) = deps (watchers s w)" using f3 f4 by simp
  have "snd (Watcher_get env w s) = Watcher_cleanupDeps w (popTarget ?s4)"
    by (simp add: Watcher_get_def Let_def split_beta)
  moreover have "graph_inv (popTarget ?s4)" using g4 by simp
  ultimately show ?thesis using n4 d4 by (intro exI [of _ "popTarget ?s4"]) simp
qed

lemma get_graph_inv: "graph_inv s \<Longrightarrow> graph_inv (snd (Watcher_get env w s))"
  using get_state [of s env w] cleanupDeps_graph_inv by auto

lemma cleanupDeps_post:
  assumes "ids_ok s"
  shows "newDeps (watchers (Watcher_cleanupDeps w s) w) = []
    \<and> newDepIds (watchers (Watcher_cleanupDeps w s) w) = {}
    \<and> deps (watchers (Watcher_cleanupDeps w s) w) = newDeps (watchers s w)
    \<and> depIds (watchers (Watcher_cleanupDeps w s) w) = set (newDeps (watchers s w))
    \<and> (\<forall>d. d \<in> set (deps (watchers s w)) \<and> d \<notin> set (newDeps (watchers s w))
           \<longrightarrow> w \<notin> set (dep_subs (Watcher_cleanupDeps w s) d))"
  using assms by (auto simp: cleanupDeps_fields cleanupDeps_subs ids_ok_def)

lemma get_post:
  assumes "graph_inv s" and "newDeps (watchers s w) = []"
  shows "newDeps (watchers (snd (Watcher_get env w s)) w) = []
    \<and> newDepIds (watchers (snd (Watcher_get env w s)) w) = {}
    \<and> set (deps (watchers (snd (Watcher_get env w s)) w)) = set (reads_during_get env w s)
    \<and> (\<forall>d. d \<in> set (deps (watchers s w)) \<and> d \<notin> set (reads_during_get env w s)
           \<longrightarrow> w \<notin> set (dep_subs (snd (Watcher_get env w s)) d))"
proof -
  from get_state [OF assms(1), of env w] obtain s5 where
    s5: "snd (Watcher_get env w s) = Watcher_cleanupDeps w s5" "graph_inv s5"
      "set (newDeps (watchers s5 w)) = set (newDeps (watchers s w)) \<union> set (reads_during_get env w s)"
      "deps (watchers s5 w) = deps (watchers s w)" by blast
  from cleanupDeps_post [OF graph_inv_ids_ok [OF s5(2)], of w] s5 assms(2) show ?thesis by simp
qed

lemma bidirectional_graph_inv: "ids_ok s \<Longrightarrow> bidirectional s \<Longrightarrow> graph_inv s"
  by (simp add: graph_inv_def bidirectional_def)

lemma graph_inv_active_iff:
  "graph_inv s \<Longrightarrow> active (watchers s w) \<Longrightarrow> newDeps (watchers s w) = [] \<Longrightarrow>
   (w \<in> set (dep_subs s d) \<longleftrightarrow> d \<in> set (deps (watchers s w)))"
  unfolding graph_inv_def by (metis Un_iff empty_iff list.set(1))




text \<open>
  C3. After \<open>cleanupDeps\<close> the next generation (\<open>newDeps\<close>, \<open>newDepIds\<close>) is empty,
  \<open>deps\<close> is what \<open>newDeps\<close> was, and the watcher is in the \<open>subs\<close> of no Dep of the
  old generation that is missing from the new one. For the \<open>cleanupDeps\<close> that ends a
  \<open>get\<close> begun outside any other \<open>get\<close> of the watcher, \<open>deps\<close> is exactly the set of
  Deps read during that \<open>get\<close>.
\<close>

theorem cleanupDeps_generations:
  "(ids_ok s \<longrightarrow>
      newDeps (watchers (Watcher_cleanupDeps w s) w) = []
      \<and> newDepIds (watchers (Watcher_cleanupDeps w s) w) = {}
      \<and> deps (watchers (Watcher_cleanupDeps w s) w) = newDeps (watchers s w)
      \<and> (\<forall>d. d \<in> set (deps (watchers s w)) \<and> d \<notin> set (newDeps (watchers s w))
             \<longrightarrow> w \<notin> set (dep_subs (Watcher_cleanupDeps w s) d)))
   \<and> (graph_inv s \<and> newDeps (watchers s w) = [] \<longrightarrow>
      newDeps (watchers (snd (Watcher_get env w s)) w) = []
      \<and> newDepIds (watchers (snd (Watcher_get env w s)) w) = {}
      \<and> set (deps (watchers (snd (Watcher_get env w s)) w)) = set (reads_during_get env w s)
      \<and> (\<forall>d. d \<in> set (deps (watchers s w)) \<and> d \<notin> set (reads_during_get env w s)
             \<longrightarrow> w \<notin> set (dep_subs (snd (Watcher_get env w s)) d)))"
  using cleanupDeps_post [of s w] get_post [of s w env] by blast

lemma reads_env_reading:
  "reads_during_get (env_reading ds) 1 one_watcher = ds"
  by (simp add: reads_during_get_def env_reading_def env0_def get_try_def Let_def one_watcher_watchers
      Dep_depend_def split_beta fold_depend)

theorem cleanupDeps_generations_witness:
  "graph_inv one_watcher \<and> newDeps (watchers one_watcher 1) = []
   \<and> deps (watchers one_watcher 1) = [0]
   \<and> newDeps (watchers (snd (Watcher_get (env_reading [3, 3, 4]) 1 one_watcher)) 1) = []
   \<and> newDepIds (watchers (snd (Watcher_get (env_reading [3, 3, 4]) 1 one_watcher)) 1) = {}
   \<and> set (deps (watchers (snd (Watcher_get (env_reading [3, 3, 4]) 1 one_watcher)) 1)) = {3, 4}
   \<and> 1 \<notin> set (dep_subs (snd (Watcher_get (env_reading [3, 3, 4]) 1 one_watcher)) 0)"
proof -
  have ok: "ids_ok one_watcher" "bidirectional one_watcher" using one_watcher_ok by simp_all
  have g: "graph_inv one_watcher" using ok by (rule bidirectional_graph_inv)
  have n: "newDeps (watchers one_watcher 1) = []" by (rule one_watcher_eval)
  have d: "deps (watchers one_watcher 1) = [0]" by (rule one_watcher_eval)
  have r: "set (reads_during_get (env_reading [3, 3, 4]) 1 one_watcher) = {3, 4}"
    by (simp only: reads_env_reading) simp
  have m: "(0::nat) \<in> set (deps (watchers one_watcher 1))
      \<and> 0 \<notin> set (reads_during_get (env_reading [3, 3, 4]) 1 one_watcher)"
    by (simp only: r d) simp
  from cleanupDeps_generations [of one_watcher 1 "env_reading [3, 3, 4]"] g n d r m
  show ?thesis by blast
qed

section \<open>Properties of computed properties\<close>

lemma addDep_frame:
  "vm_computedWatchers (Watcher_addDep t d s) = vm_computedWatchers s"
  "dirty (watchers (Watcher_addDep t d s) w) = dirty (watchers s w)"
  "lazy (watchers (Watcher_addDep t d s) w) = lazy (watchers s w)"
  "wvalue (watchers (Watcher_addDep t d s) w) = wvalue (watchers s w)"
  by (auto simp: Watcher_addDep_def Let_def Dep_addSub_def)

lemma depend_frame:
  "trace (Dep_depend d s) = trace s"
  "target (Dep_depend d s) = target s"
  "vm_computedWatchers (Dep_depend d s) = vm_computedWatchers s"
  "dirty (watchers (Dep_depend d s) w) = dirty (watchers s w)"
  "lazy (watchers (Dep_depend d s) w) = lazy (watchers s w)"
  "user (watchers (Dep_depend d s) w) = user (watchers s w)"
  "wvalue (watchers (Dep_depend d s) w) = wvalue (watchers s w)"
  by (auto simp: Dep_depend_def addDep_facts addDep_frame split: option.splits)

lemma fold_depend_frame:
  "trace (fold Dep_depend ds s) = trace s
   \<and> target (fold Dep_depend ds s) = target s
   \<and> vm_computedWatchers (fold Dep_depend ds s) = vm_computedWatchers s
   \<and> dirty (watchers (fold Dep_depend ds s) w) = dirty (watchers s w)
   \<and> lazy (watchers (fold Dep_depend ds s) w) = lazy (watchers s w)
   \<and> user (watchers (fold Dep_depend ds s) w) = user (watchers s w)
   \<and> wvalue (watchers (fold Dep_depend ds s) w) = wvalue (watchers s w)"
  by (induction ds arbitrary: s) (simp_all add: depend_frame)

lemma pushTarget_frame [simp]:
  "vm_computedWatchers (pushTarget t s) = vm_computedWatchers s"
  by (simp add: pushTarget_def)

lemma popTarget_frame [simp]:
  "vm_computedWatchers (popTarget s) = vm_computedWatchers s"
  by (simp add: popTarget_def Let_def)

lemma say_frame [simp]:
  "vm_computedWatchers (say e s) = vm_computedWatchers s"
  by (simp add: say_def)

lemma cleanupDeps_frame:
  "trace (Watcher_cleanupDeps w s) = trace s"
  "vm_computedWatchers (Watcher_cleanupDeps w s) = vm_computedWatchers s"
  "dirty (watchers (Watcher_cleanupDeps w s) w') = dirty (watchers s w')"
  "lazy (watchers (Watcher_cleanupDeps w s) w') = lazy (watchers s w')"
  "wvalue (watchers (Watcher_cleanupDeps w s) w') = wvalue (watchers s w')"
  "user (watchers (Watcher_cleanupDeps w s) w') = user (watchers s w')"
proof -
  have f: "\<And>ds st. trace (fold (\<lambda>d st. if d \<notin> newDepIds (watchers s w) then Dep_removeSub d w st else st) ds st) = trace st
      \<and> vm_computedWatchers (fold (\<lambda>d st. if d \<notin> newDepIds (watchers s w) then Dep_removeSub d w st else st) ds st) = vm_computedWatchers st"
    subgoal for ds st by (induction ds arbitrary: st) (simp_all add: Dep_removeSub_def)
    done
  show "trace (Watcher_cleanupDeps w s) = trace s"
    "vm_computedWatchers (Watcher_cleanupDeps w s) = vm_computedWatchers s"
    by (simp_all add: Watcher_cleanupDeps_def Let_def f)
  show "dirty (watchers (Watcher_cleanupDeps w s) w') = dirty (watchers s w')"
    "lazy (watchers (Watcher_cleanupDeps w s) w') = lazy (watchers s w')"
    "wvalue (watchers (Watcher_cleanupDeps w s) w') = wvalue (watchers s w')"
    "user (watchers (Watcher_cleanupDeps w s) w') = user (watchers s w')"
    by (simp_all add: cleanupDeps_fields)
qed

text \<open>What one get does to the trace and to the flags.\<close>

lemma get_returns:
  assumes "outcome (getter env w (pushTarget (Some w) s)) = Some v"
  shows "fst (Watcher_get env w s) = Inr v
    \<and> trace (snd (Watcher_get env w s)) = trace s @ [GetterCall w]
    \<and> vm_computedWatchers (snd (Watcher_get env w s)) = vm_computedWatchers s
    \<and> dirty (watchers (snd (Watcher_get env w s)) w') = dirty (watchers s w')
    \<and> lazy (watchers (snd (Watcher_get env w s)) w') = lazy (watchers s w')
    \<and> user (watchers (snd (Watcher_get env w s)) w') = user (watchers s w')"
  using assms
  by (simp add: Watcher_get_def get_try_def Let_def split_beta cleanupDeps_frame fold_depend_frame)

lemma get_throws:
  assumes "outcome (getter env w (pushTarget (Some w) s)) = None" and "\<not> user (watchers s w)"
  shows "fst (Watcher_get env w s) = Inl UserError
    \<and> trace (snd (Watcher_get env w s)) = trace s @ [GetterCall w]
    \<and> vm_computedWatchers (snd (Watcher_get env w s)) = vm_computedWatchers s
    \<and> dirty (watchers (snd (Watcher_get env w s)) w') = dirty (watchers s w')
    \<and> lazy (watchers (snd (Watcher_get env w s)) w') = lazy (watchers s w')
    \<and> user (watchers (snd (Watcher_get env w s)) w') = user (watchers s w')"
  using assms
  by (simp add: Watcher_get_def get_try_def Let_def split_beta cleanupDeps_frame fold_depend_frame)

lemma first_read:
  assumes "vm_computedWatchers s vm = Some ws" and "map_of ws k = Some w"
    and "dirty (watchers s w)"
    and "outcome (getter env w (pushTarget (Some w) s)) = Some v"
  shows "fst (computedGetter env k vm s) = Inr v
    \<and> trace (snd (computedGetter env k vm s)) = trace s @ [GetterCall w]
    \<and> vm_computedWatchers (snd (computedGetter env k vm s)) = vm_computedWatchers s
    \<and> \<not> dirty (watchers (snd (computedGetter env k vm s)) w)
    \<and> wvalue (watchers (snd (computedGetter env k vm s)) w) = v"
  using assms get_returns [OF assms(4), of w]
  by (simp add: computedGetter_def Watcher_evaluate_def Watcher_depend_def Let_def split_beta
      fold_depend_frame)

lemma cached_read:
  assumes "vm_computedWatchers s vm = Some ws" and "map_of ws k = Some w"
    and "\<not> dirty (watchers s w)"
  shows "fst (computedGetter env k vm s) = Inr (wvalue (watchers s w))
    \<and> trace (snd (computedGetter env k vm s)) = trace s
    \<and> vm_computedWatchers (snd (computedGetter env k vm s)) = vm_computedWatchers s
    \<and> \<not> dirty (watchers (snd (computedGetter env k vm s)) w)
    \<and> wvalue (watchers (snd (computedGetter env k vm s)) w) = wvalue (watchers s w)"
  using assms
  by (simp add: computedGetter_def Watcher_depend_def Let_def fold_depend_frame)

lemma cached_reads:
  assumes "vm_computedWatchers s vm = Some ws" and "map_of ws k = Some w"
    and "\<not> dirty (watchers s w)"
  shows "trace (read_times env k vm n s) = trace s
    \<and> vm_computedWatchers (read_times env k vm n s) = vm_computedWatchers s
    \<and> \<not> dirty (watchers (read_times env k vm n s) w)
    \<and> wvalue (watchers (read_times env k vm n s) w) = wvalue (watchers s w)"
  using assms
proof (induction n arbitrary: s)
  case 0
  then show ?case by simp
next
  case (Suc n)
  note c = cached_read [OF Suc.prems, of env]
  have "vm_computedWatchers (snd (computedGetter env k vm s)) vm = Some ws"
    using c Suc.prems by simp
  from Suc.IH [OF this Suc.prems(2)] c show ?case by simp
qed

lemma throwing_read:
  assumes "vm_computedWatchers s vm = Some ws" and "map_of ws k = Some w"
    and "dirty (watchers s w)" and "\<not> user (watchers s w)"
    and "outcome (getter env w (pushTarget (Some w) s)) = None"
  shows "fst (computedGetter env k vm s) = Inl UserError
    \<and> trace (snd (computedGetter env k vm s)) = trace s @ [GetterCall w]
    \<and> vm_computedWatchers (snd (computedGetter env k vm s)) = vm_computedWatchers s
    \<and> \<not> user (watchers (snd (computedGetter env k vm s)) w)
    \<and> dirty (watchers (snd (computedGetter env k vm s)) w)"
  using assms get_throws [OF assms(5) assms(4), of w]
  by (simp add: computedGetter_def Watcher_evaluate_def Let_def split_beta)

lemma lazy_new:
  "fst (Watcher_new env vm dp us True sy rw s) = Inr (Suc (watcher_uid s))
   \<and> dirty (watchers (snd (Watcher_new env vm dp us True sy rw s)) (Suc (watcher_uid s)))
   \<and> lazy (watchers (snd (Watcher_new env vm dp us True sy rw s)) (Suc (watcher_uid s)))
   \<and> wvalue (watchers (snd (Watcher_new env vm dp us True sy rw s)) (Suc (watcher_uid s))) = Undefined
   \<and> trace (snd (Watcher_new env vm dp us True sy rw s)) = trace s"
  by (simp add: Watcher_new_def Let_def)

lemma lazy_update:
  "lazy (watchers s w) \<Longrightarrow>
   Watcher_update env w s = (Inr (), s \<lparr> watchers := (watchers s)(w := (watchers s w) \<lparr> dirty := True \<rparr>) \<rparr>)"
  by (simp add: Watcher_update_def Let_def)

text \<open>
  C9, amended. A lazy watcher is created with \<open>dirty = true\<close> and
  \<open>value = undefined\<close> and without running the getter. When the property is dirty and
  the getter returns at the first read, any number of reads in a row, one or more, runs
  the getter exactly once: the first read evaluates and clears \<open>dirty\<close>, every read
  returns the cached value. When the getter throws, the read throws and \<open>dirty\<close> stays
  true. \<open>update\<close> on a lazy watcher sets \<open>dirty\<close> and calls nothing.
\<close>

theorem computed_cache:
  "(fst (Watcher_new env vm False False True False False s) = Inr (Suc (watcher_uid s))
    \<and> dirty (watchers (snd (Watcher_new env vm False False True False False s)) (Suc (watcher_uid s)))
    \<and> wvalue (watchers (snd (Watcher_new env vm False False True False False s)) (Suc (watcher_uid s))) = Undefined
    \<and> getter_calls w' (snd (Watcher_new env vm False False True False False s)) = getter_calls w' s)
   \<and> (vm_computedWatchers s vm = Some ws \<and> map_of ws k = Some w \<and> dirty (watchers s w)
        \<and> outcome (getter env w (pushTarget (Some w) s)) = Some v \<longrightarrow>
        getter_calls w (read_times env k vm (Suc n) s) = getter_calls w s + 1
        \<and> fst (computedGetter env k vm s) = Inr v
        \<and> fst (computedGetter env k vm (read_times env k vm (Suc n) s)) = Inr v
        \<and> getter_calls w (snd (computedGetter env k vm (read_times env k vm (Suc n) s)))
            = getter_calls w s + 1
        \<and> \<not> dirty (watchers (read_times env k vm (Suc n) s) w))
   \<and> (vm_computedWatchers s vm = Some ws \<and> map_of ws k = Some w \<and> dirty (watchers s w)
        \<and> \<not> user (watchers s w)
        \<and> outcome (getter env w (pushTarget (Some w) s)) = None \<longrightarrow>
        fst (computedGetter env k vm s) = Inl UserError
        \<and> dirty (watchers (snd (computedGetter env k vm s)) w))
   \<and> (lazy (watchers s w) \<longrightarrow>
        dirty (watchers (snd (Watcher_update env w s)) w)
        \<and> trace (snd (Watcher_update env w s)) = trace s)"
proof (intro conjI impI)
  assume b: "vm_computedWatchers s vm = Some ws \<and> map_of ws k = Some w \<and> dirty (watchers s w)
        \<and> \<not> user (watchers s w)
        \<and> outcome (getter env w (pushTarget (Some w) s)) = None"
  then show "fst (computedGetter env k vm s) = Inl UserError"
    and "dirty (watchers (snd (computedGetter env k vm s)) w)"
    using throwing_read [of s vm ws k w env] by blast+
next
  assume a: "vm_computedWatchers s vm = Some ws \<and> map_of ws k = Some w \<and> dirty (watchers s w)
        \<and> outcome (getter env w (pushTarget (Some w) s)) = Some v"
  let ?s1 = "snd (computedGetter env k vm s)"
  have f: "fst (computedGetter env k vm s) = Inr v
    \<and> trace ?s1 = trace s @ [GetterCall w]
    \<and> vm_computedWatchers ?s1 = vm_computedWatchers s
    \<and> \<not> dirty (watchers ?s1 w) \<and> wvalue (watchers ?s1 w) = v"
    using a first_read [of s vm ws k w env v] by blast
  have c1: "vm_computedWatchers ?s1 vm = Some ws" using f a by simp
  have c2: "map_of ws k = Some w" using a by simp
  have c3: "\<not> dirty (watchers ?s1 w)" using f by simp
  note r = cached_reads [OF c1 c2 c3, of env n]
  let ?sn = "read_times env k vm (Suc n) s"
  have sn: "?sn = read_times env k vm n ?s1" by simp
  show "getter_calls w ?sn = getter_calls w s + 1"
    using r f by (simp add: getter_calls_def)
  show "fst (computedGetter env k vm s) = Inr v" using f by simp
  have d1: "vm_computedWatchers ?sn vm = Some ws" using r c1 by simp
  have d3: "\<not> dirty (watchers ?sn w)" using r by simp
  note l = cached_read [OF d1 c2 d3, of env]
  show "fst (computedGetter env k vm ?sn) = Inr v" using l r f by simp
  show "getter_calls w (snd (computedGetter env k vm ?sn)) = getter_calls w s + 1"
    using l r f by (simp add: getter_calls_def)
  show "\<not> dirty (watchers ?sn w)" by (rule d3)
qed (simp_all add: lazy_new lazy_update getter_calls_def)

lemma computed_state_facts:
  "vm_computedWatchers (computed_state env) 0 = Some [(''sum'', Suc 0)]
   \<and> dirty (watchers (computed_state env) (Suc 0))
   \<and> \<not> user (watchers (computed_state env) (Suc 0))
   \<and> lazy (watchers (computed_state env) (Suc 0))
   \<and> trace (computed_state env) = []"
  by (simp add: computed_state_def initComputed_key_def Watcher_new_def Let_def init_state_def)

theorem computed_cache_witness:
  "dirty (watchers (computed_state env0) (Suc 0))
   \<and> getter_calls (Suc 0) (computed_state env0) = 0
   \<and> getter_calls (Suc 0) (read_times env0 ''sum'' 0 (Suc 2) (computed_state env0)) = 1
   \<and> fst (computedGetter env0 ''sum'' 0 (computed_state env0)) = Inr (Num (Fin 1))
   \<and> fst (computedGetter env0 ''sum'' 0 (read_times env0 ''sum'' 0 (Suc 2) (computed_state env0)))
       = Inr (Num (Fin 1))
   \<and> dirty (watchers (snd (Watcher_update env0 (Suc 0)
        (read_times env0 ''sum'' 0 (Suc 2) (computed_state env0)))) (Suc 0))"
proof -
  note f = computed_state_facts [of env0]
  have m: "map_of [(''sum'', Suc 0)] ''sum'' = Some (Suc 0)" by simp
  have o: "outcome (getter env0 (Suc 0) (pushTarget (Some (Suc 0)) (computed_state env0)))
      = Some (Num (Fin 1))" by (simp add: env0_def)
  have g0: "getter_calls (Suc 0) (computed_state env0) = 0"
    using f by (simp add: getter_calls_def)
  note c = computed_cache [where s = "computed_state env0" and env = env0 and vm = 0
      and k = "''sum''" and w = "Suc 0" and ws = "[(''sum'', Suc 0)]" and v = "Num (Fin 1)"
      and n = 2]
  have l: "lazy (watchers (read_times env0 ''sum'' 0 (Suc 2) (computed_state env0)) (Suc 0))"
    using f by (simp add: numeral_2_eq_2 computedGetter_def Watcher_evaluate_def Watcher_depend_def
        Let_def split_beta get_returns [OF o] fold_depend_frame)
  note u = computed_cache [where s = "read_times env0 ''sum'' 0 (Suc 2) (computed_state env0)"
      and env = env0 and w = "Suc 0"]
  from c u f m o g0 l show ?thesis by simp
qed

text \<open>
  C9, as stated, fails when the getter throws: \<open>evaluate\<close> does not reach
  \<open>this.dirty = false\<close>, and two reads run the getter twice.
\<close>

theorem computed_throwing_getter_runs_again:
  "dirty (watchers (computed_state env_throwing) (Suc 0))
   \<and> getter_calls (Suc 0) (computed_state env_throwing) = 0
   \<and> getter_calls (Suc 0) (read_times env_throwing ''sum'' 0 2 (computed_state env_throwing)) = 2"
proof -
  note f = computed_state_facts [of env_throwing]
  have m: "map_of [(''sum'', Suc 0)] ''sum'' = Some (Suc 0)" by simp
  have o: "\<And>s. outcome (getter env_throwing (Suc 0) s) = None" by (simp add: env_throwing_def)
  let ?s0 = "computed_state env_throwing"
  let ?s1 = "snd (computedGetter env_throwing ''sum'' 0 ?s0)"
  let ?s2 = "snd (computedGetter env_throwing ''sum'' 0 ?s1)"
  have c0: "vm_computedWatchers ?s0 0 = Some [(''sum'', Suc 0)]" "dirty (watchers ?s0 (Suc 0))"
    "\<not> user (watchers ?s0 (Suc 0))" using f by simp_all
  note r1 = throwing_read [OF c0(1) m c0(2) c0(3) o]
  have c1: "vm_computedWatchers ?s1 0 = Some [(''sum'', Suc 0)]" "dirty (watchers ?s1 (Suc 0))"
    "\<not> user (watchers ?s1 (Suc 0))"
    using c0 r1 by simp_all
  note r2 = throwing_read [OF c1(1) m c1(2) c1(3) o]
  have "read_times env_throwing ''sum'' 0 2 ?s0 = ?s2" by (simp add: numeral_2_eq_2)
  then show ?thesis using r1 r2 f by (simp add: getter_calls_def)
qed

section \<open>Properties of set\<close>

lemma set_vue_primitive:
  assumes "isUndef t \<or> isPrimitive t"
  shows "set_vue env fuel t k val s =
     (Inl TypeError, if \<not> production env then say (Warn warn_set_primitive) s else s)"
  using assms by (cases t) (simp_all add: set_vue_def isUndef_def)

lemma set_vue_root:
  assumes "kind (heap s r) \<noteq> ArrayObject"
    and "\<not> key_in env (toPropertyName env k) (heap s r)"
    and "isVue (heap s r) \<or> (\<exists>obv. ob (heap s r) = Some obv \<and> 0 < vmCount (observers s obv))"
  shows "set_vue env fuel (Ref r) k val s =
     (Inr val, if \<not> production env then say (Warn warn_set_root) s else s)"
proof (cases "ob (heap s r)")
  case None
  then have "isVue (heap s r)" using assms(3) by simp
  then show ?thesis using None assms(1,2)
    by (simp add: set_vue_def isUndef_def Let_def)
next
  case (Some obv)
  then have "isVue (heap s r) \<or> 0 < vmCount (observers s obv)" using assms(3) by simp
  then show ?thesis using Some assms(1,2)
    by (simp add: set_vue_def isUndef_def Let_def)
qed

text \<open>
  C5, amended. \<open>set\<close> on \<open>undefined\<close>, \<open>null\<close> or a primitive changes nothing and ends
  with the TypeError of \<open>key in target\<close>; \<open>set\<close> of a key that is not in the target, on
  a Vue instance or on an object whose observer counts an instance (a root \<open>$data\<close>),
  returns \<open>val\<close> and changes nothing: no key is added and no Dep is notified. In both
  cases the one effect is the warning, and only in a build other than production.
\<close>

theorem set_warns_and_returns:
  "(isUndef t \<or> isPrimitive t \<longrightarrow>
      set_vue env fuel t k val s =
        (Inl TypeError, if \<not> production env then say (Warn warn_set_primitive) s else s))
   \<and> (kind (heap s r) \<noteq> ArrayObject
       \<and> \<not> key_in env (toPropertyName env k) (heap s r)
       \<and> (isVue (heap s r) \<or> (\<exists>obv. ob (heap s r) = Some obv \<and> 0 < vmCount (observers s obv))) \<longrightarrow>
      set_vue env fuel (Ref r) k val s =
        (Inr val, if \<not> production env then say (Warn warn_set_root) s else s))
   \<and> say (Warn m) s = s \<lparr> trace := trace s @ [Warn m] \<rparr>"
  using set_vue_primitive [of t env fuel k val s] set_vue_root [of s r env k fuel val]
  by (simp add: say_def)

lemma vm_state_heap:
  "heap vm_state 1 = blankObject \<lparr> isVue := True \<rparr>"
  "heap vm_state 2 = blankObject \<lparr> ob := Some 0 \<rparr>"
  "observers vm_state 0 = \<lparr> ob_value = 2, ob_dep = 0, vmCount = 1 \<rparr>"
  "trace vm_state = []"
  by (simp_all add: vm_state_def init_state_def)

lemma vm_state_hyps:
  "kind (heap vm_state 1) \<noteq> ArrayObject
     \<and> \<not> key_in env (toPropertyName env (Str ''x'')) (heap vm_state 1)
     \<and> (isVue (heap vm_state 1)
         \<or> (\<exists>obv. ob (heap vm_state 1) = Some obv \<and> 0 < vmCount (observers vm_state obv)))"
  "kind (heap vm_state 2) \<noteq> ArrayObject
     \<and> \<not> key_in env (toPropertyName env (Str ''x'')) (heap vm_state 2)
     \<and> (isVue (heap vm_state 2)
         \<or> (\<exists>obv. ob (heap vm_state 2) = Some obv \<and> 0 < vmCount (observers vm_state obv)))"
  if "toPropertyName env (Str ''x'') = ''x''" and "\<not> inObjectPrototype env ''x''"
  using that by (simp_all only: vm_state_heap) (simp_all add: blankObject_def key_in_def vm_state_heap)

lemma env0_x:
  "toPropertyName env0 (Str ''x'') = ''x''" "\<not> inObjectPrototype env0 ''x''"
  "toPropertyName env_production (Str ''x'') = ''x''" "\<not> inObjectPrototype env_production ''x''"
  "\<not> production env0" "production env_production"
  by (simp_all add: env_production_def env0_def)

theorem set_warns_and_returns_witness:
  "set_vue env0 5 (Num (Fin 7)) (Str ''x'') (Num (Fin 5)) vm_state
     = (Inl TypeError, vm_state \<lparr> trace := [Warn warn_set_primitive] \<rparr>)
   \<and> set_vue env0 5 (Ref 1) (Str ''x'') (Num (Fin 5)) vm_state
     = (Inr (Num (Fin 5)), vm_state \<lparr> trace := [Warn warn_set_root] \<rparr>)
   \<and> set_vue env0 5 (Ref 2) (Str ''x'') (Num (Fin 5)) vm_state
     = (Inr (Num (Fin 5)), vm_state \<lparr> trace := [Warn warn_set_root] \<rparr>)"
proof -
  have p: "isUndef (Num (Fin 7)) \<or> isPrimitive (Num (Fin 7))" by simp
  note k = vm_state_hyps [OF env0_x(1) env0_x(2)]
  note a = set_warns_and_returns [of "Num (Fin 7)" env0 5 "Str ''x''" "Num (Fin 5)" vm_state 1]
  note b = set_warns_and_returns [of "Num (Fin 7)" env0 5 "Str ''x''" "Num (Fin 5)" vm_state 2]
  have t: "\<And>m. say (Warn m) vm_state = vm_state \<lparr> trace := [Warn m] \<rparr>"
    by (simp add: say_def vm_state_heap)
  have a1: "set_vue env0 5 (Num (Fin 7)) (Str ''x'') (Num (Fin 5)) vm_state
     = (Inl TypeError, vm_state \<lparr> trace := [Warn warn_set_primitive] \<rparr>)"
    using a p env0_x(5) t by presburger
  have a2: "set_vue env0 5 (Ref 1) (Str ''x'') (Num (Fin 5)) vm_state
     = (Inr (Num (Fin 5)), vm_state \<lparr> trace := [Warn warn_set_root] \<rparr>)"
    using a k(1) env0_x(5) t by presburger
  have b2: "set_vue env0 5 (Ref 2) (Str ''x'') (Num (Fin 5)) vm_state
     = (Inr (Num (Fin 5)), vm_state \<lparr> trace := [Warn warn_set_root] \<rparr>)"
    using b k(2) env0_x(5) t by presburger
  from a1 a2 b2 show ?thesis by blast
qed

text \<open>
  C5, as stated, fails in a production build: \<open>set\<close> on a Vue instance, and on a
  primitive, leaves the trace empty, so nothing is warned.
\<close>

theorem set_production_no_warning:
  "set_vue env_production 5 (Ref 1) (Str ''x'') (Num (Fin 5)) vm_state = (Inr (Num (Fin 5)), vm_state)
   \<and> set_vue env_production 5 (Num (Fin 7)) (Str ''x'') (Num (Fin 5)) vm_state = (Inl TypeError, vm_state)
   \<and> trace vm_state = []"
proof -
  have p: "isUndef (Num (Fin 7)) \<or> isPrimitive (Num (Fin 7))" by simp
  note k = vm_state_hyps [OF env0_x(3) env0_x(4)]
  from set_vue_primitive [OF p, of env_production 5 "Str ''x''" "Num (Fin 5)" vm_state]
    set_vue_root [of vm_state 1 env_production "Str ''x''" 5 "Num (Fin 5)"] k(1) env0_x(6)
  show ?thesis by (simp only: vm_state_heap if_False simp_thms)
qed

section \<open>Properties of observe\<close>

lemma same_objects_refl [simp]: "same_objects s s"
  by (simp add: same_objects_def)

lemma same_objects_trans: "same_objects s s1 \<Longrightarrow> same_objects s1 s2 \<Longrightarrow> same_objects s s2"
  by (simp add: same_objects_def)

lemma same_objects_addDep: "same_objects s (Watcher_addDep w d s)"
  by (simp add: same_objects_def Watcher_addDep_def Let_def Dep_addSub_def)

lemma same_objects_depend: "same_objects s (Dep_depend d s)"
  by (simp add: Dep_depend_def same_objects_addDep split: option.splits)

lemmas depend_fields = same_objects_depend [unfolded same_objects_def]

lemma forE_invariant:
  assumes step: "\<And>x s. x \<in> set xs \<Longrightarrow> R s (snd (f x s))"
    and refl: "\<And>s. R s s" and trans: "\<And>s s1 s2. R s s1 \<Longrightarrow> R s1 s2 \<Longrightarrow> R s s2"
  shows "R s (snd (forE f xs s))"
  using step
proof (induction xs arbitrary: s)
  case Nil
  then show ?case by (simp add: refl)
next
  case (Cons x xs)
  have a: "R s (snd (f x s))" using Cons.prems by simp
  have b: "R (snd (f x s)) (snd (forE f xs (snd (f x s))))"
    using Cons.IH Cons.prems by simp
  show ?case
  proof (cases "f x s")
    case (Pair res s1)
    then show ?thesis using a b trans by (cases res) (auto simp: refl)
  qed
qed

lemma same_objects_dependArray: "same_objects s (snd (dependArray n es s))"
proof (induction n arbitrary: es s)
  case 0
  then show ?case by simp
next
  case (Suc n)
  note ih = Suc.IH [unfolded same_objects_def]
  show ?case
    unfolding dependArray.simps
  proof (rule forE_invariant [where R = same_objects])
    fix e st
    show "same_objects st (snd (let st1 = case e of Ref r \<Rightarrow> (case ob (heap st r) of
                              None \<Rightarrow> st | Some obv \<Rightarrow> Dep_depend (ob_dep (observers st obv)) st)
                          | _ \<Rightarrow> st
             in case e of
                  Ref r \<Rightarrow> if kind (heap st1 r) = ArrayObject
                           then dependArray n (elems (heap st1 r)) st1 else (Inr (), st1)
                | _ \<Rightarrow> (Inr (), st1)))"
      by (simp add: Let_def same_objects_def ih depend_fields split: jsval.splits option.splits)
  qed (auto intro: same_objects_trans)
qed

lemmas dependArray_fields = same_objects_dependArray [unfolded same_objects_def]

lemma same_objects_call_get: "same_objects s (snd (call_get n g s))"
proof (induction n arbitrary: g s)
  case 0
  then show ?case by simp
next
  case (Suc n)
  note ih = Suc.IH [unfolded same_objects_def]
  show ?case
  proof (cases g)
    case (UserGet f c)
    then show ?thesis by simp
  next
    case (ReactiveGet c)
    let ?inner = "case c_getter (closures s c) of Some g1 \<Rightarrow> call_get n g1 s
                 | None \<Rightarrow> (Inr (c_val (closures s c)), s)"
    obtain res s1 where r: "?inner = (res, s1)" by (cases ?inner)
    have "same_objects s (snd ?inner)"
      by (simp add: same_objects_def ih split: option.splits)
    then have s1: "same_objects s s1" using r by simp
    note e1 = s1 [unfolded same_objects_def]
    show ?thesis
      unfolding ReactiveGet call_get.simps getfn.case r
      by (cases res)
         (simp_all add: same_objects_def e1 Let_def depend_fields dependArray_fields split_beta
            split: option.splits jsval.splits sum.splits)
  qed
qed

lemmas call_get_fields = same_objects_call_get [unfolded same_objects_def]

lemma same_objects_prop_read: "same_objects s (snd (prop_read n r k s))"
  by (simp add: prop_read_def same_objects_call_get split: option.splits jsprop.splits)

lemmas prop_read_fields = same_objects_prop_read [unfolded same_objects_def]

lemma obs_frame_refl [simp]: "obs_frame e s s"
  by (simp add: obs_frame_def)

lemma obs_frame_trans: "obs_frame e s s1 \<Longrightarrow> obs_frame e s1 s2 \<Longrightarrow> obs_frame e s s2"
  unfolding obs_frame_def
  apply (intro conjI)
           apply simp
          apply simp
         apply simp
        apply linarith
       apply (metis less_le_trans)
      apply linarith
     apply (metis less_le_trans)
    apply metis
   apply metis
  apply simp
  done

lemma obs_frame_weaken: "obs_frame None s s' \<Longrightarrow> obs_frame e s s'"
  by (simp add: obs_frame_def)

lemma same_objects_obs_frame: "same_objects s s' \<Longrightarrow> obs_frame e s s'"
  by (simp add: obs_frame_def same_objects_def)

lemma obs_frame_new_Dep: "obs_frame e s (snd (new_Dep s))"
  by (simp add: obs_frame_def new_Dep_def)

lemma obs_frame_define:
  "obs_frame (Some r) s
     (s \<lparr> closure_uid := closure_uid s + 1,
          closures := (closures s)(closure_uid s := cl),
          heap := (heap s)(r := (heap s r) \<lparr> props := ps \<rparr>) \<rparr>)"
  by (simp add: obs_frame_def)

lemma defineReactive_with_frame:
  assumes rec: "\<And>v a st. obs_frame None st (snd (observe_rec v a st))"
  shows "obs_frame (Some r) s (snd (defineReactive_with observe_rec fuel r k val cs sh s))"
proof -
  obtain d s0 where nd: "new_Dep s = (d, s0)" by (cases "new_Dep s")
  have f0: "obs_frame (Some r) s s0" using obs_frame_new_Dep [of "Some r" s] nd by simp
  let ?property = "map_of (props (heap s0 r)) k"
  show ?thesis
  proof (cases "case ?property of Some p \<Rightarrow> \<not> configurable p | None \<Rightarrow> False")
    case True
    then show ?thesis using f0 nd by (simp add: defineReactive_with_def Let_def)
  next
    case False
    let ?gt = "case ?property of Some p \<Rightarrow> prop_get p | None \<Rightarrow> None"
    let ?st = "case ?property of Some p \<Rightarrow> prop_set p | None \<Rightarrow> None"
    let ?rd = "if (?gt = None \<or> ?st \<noteq> None) \<and> val = None
               then prop_read fuel r k s0
               else (Inr (case val of Some v \<Rightarrow> v | None \<Rightarrow> Undefined), s0)"
    obtain res1 s1 where rd: "?rd = (res1, s1)" by (cases ?rd)
    have "obs_frame (Some r) s0 (snd ?rd)"
      using same_objects_obs_frame [OF same_objects_prop_read] by simp
    then have f1: "obs_frame (Some r) s s1" using f0 rd obs_frame_trans by fastforce
    show ?thesis
    proof (cases res1)
      case (Inl e)
      then show ?thesis using False nd rd f1 by (simp add: defineReactive_with_def Let_def)
    next
      case (Inr v)
      let ?ob = "if sh then (Inr None, s1) else observe_rec v False s1"
      obtain res2 s2 where ob: "?ob = (res2, s2)" by (cases ?ob)
      have "obs_frame (Some r) s1 (snd ?ob)"
        using obs_frame_weaken [OF rec] by simp
      then have f2: "obs_frame (Some r) s s2" using f1 ob obs_frame_trans by fastforce
      show ?thesis
      proof (cases res2)
        case (Inl e)
        then show ?thesis using False nd rd Inr ob f2
          by (simp add: defineReactive_with_def Let_def)
      next
        case (Inr childOb)
        show ?thesis using False nd rd \<open>res1 = Inr v\<close> ob Inr f2
            obs_frame_trans [OF f2 obs_frame_define]
          by (simp add: defineReactive_with_def Let_def)
      qed
    qed
  qed
qed

lemma walk_with_frame:
  assumes rec: "\<And>v a st. obs_frame None st (snd (observe_rec v a st))"
  shows "obs_frame (Some r) s (snd (walk_with observe_rec fuel r s))"
  unfolding walk_with_def
  by (rule forE_invariant [where R = "obs_frame (Some r)"])
     (auto intro: defineReactive_with_frame rec obs_frame_trans)

lemma observeArray_with_frame:
  assumes rec: "\<And>v a st. obs_frame None st (snd (observe_rec v a st))"
  shows "obs_frame None s (snd (observeArray_with observe_rec items s))"
  unfolding observeArray_with_def
proof (rule forE_invariant [where R = "obs_frame None"])
  fix x st
  show "obs_frame None st (snd (case observe_rec x False st of
          (Inl e, st1) \<Rightarrow> (Inl e, st1) | (Inr res, st1) \<Rightarrow> (Inr (), st1)))"
    using rec [of st x False] by (simp add: split_beta split: sum.splits)
qed (auto intro: obs_frame_trans)

lemma obs_frame_mark:
  assumes "ob (heap s r) = None"
  shows "obs_frame None s
     (s \<lparr> ob_uid := ob_uid s + 1, observers := (observers s)(ob_uid s := obr),
          heap := (heap s)(r := (heap s r) \<lparr> ob := Some (ob_uid s) \<rparr>) \<rparr>)"
  using assms by (auto simp: obs_frame_def)

lemma obs_frame_unmarked:
  assumes "obs_frame (Some r) s1 s2" and "obs_frame None s s1"
    and "ob (heap s r) = None"
  shows "obs_frame None s s2"
  using assms unfolding obs_frame_def
  apply (intro conjI)
           apply simp
          apply simp
         apply simp
        apply linarith
       apply (metis less_le_trans)
      apply linarith
     apply (metis less_le_trans)
    apply (metis option.inject)
   apply metis
  apply simp
  done

lemma Observer_new_with_frame:
  assumes rec: "\<And>v a st. obs_frame None st (snd (observe_rec v a st))"
    and un: "ob (heap s r) = None"
  shows "obs_frame None s (snd (Observer_new_with observe_rec fuel r s))
    \<and> ob (heap (snd (Observer_new_with observe_rec fuel r s)) r) \<noteq> None"
proof -
  obtain d s0 where nd: "new_Dep s = (d, s0)" by (cases "new_Dep s")
  have f0: "obs_frame None s s0" using obs_frame_new_Dep [of None s] nd by simp
  have un0: "ob (heap s0 r) = None" using nd un by (auto simp: new_Dep_def)
  let ?s1 = "s0 \<lparr> ob_uid := ob_uid s0 + 1,
                   observers := (observers s0)(ob_uid s0 := \<lparr> ob_value = r, ob_dep = d, vmCount = 0 \<rparr>),
                   heap := (heap s0)(r := (heap s0 r) \<lparr> ob := Some (ob_uid s0) \<rparr>) \<rparr>"
  have f1: "obs_frame None s ?s1"
    using obs_frame_trans [OF f0 obs_frame_mark [OF un0]] by simp
  have m1: "ob (heap ?s1 r) \<noteq> None" by simp
  let ?body = "if kind (heap ?s1 r) = ArrayObject
               then observeArray_with observe_rec (elems (heap ?s1 r)) ?s1
               else walk_with observe_rec fuel r ?s1"
  have fb: "obs_frame (Some r) ?s1 (snd ?body)"
    using observeArray_with_frame [OF rec, THEN obs_frame_weaken] walk_with_frame [OF rec]
    by (simp del: fun_upd_apply)
  have f2: "obs_frame None s (snd ?body)"
    by (rule obs_frame_unmarked [OF fb f1 un])
  have m2: "ob (heap (snd ?body) r) \<noteq> None"
    using fb m1 unfolding obs_frame_def by metis
  have e: "snd (Observer_new_with observe_rec fuel r s) = snd ?body"
    using nd by (simp add: Observer_new_with_def Let_def split_beta split: sum.splits)
  show ?thesis using f2 m2 e by simp
qed

lemma obs_frame_vmCount:
  "obs_frame None s (s \<lparr> observers := (observers s)(obv := (observers s obv) \<lparr> vmCount := n \<rparr>) \<rparr>)"
  by (simp add: obs_frame_def)

lemma observe_frame: "obs_frame None s (snd (observe env n v a s))"
proof (induction n arbitrary: v a s)
  case 0
  then show ?case by simp
next
  case (Suc n)
  show ?case
  proof (cases v)
    case (Ref r)
    show ?thesis
    proof (cases "ob (heap s r)")
      case None
      note o = Observer_new_with_frame [where observe_rec = "observe env n" and fuel = "Suc n" and s = s and r = r, OF Suc.IH None, THEN conjunct1]
      obtain res s1 where r: "Observer_new_with (observe env n) (Suc n) r s = (res, s1)"
        by (cases "Observer_new_with (observe env n) (Suc n) r s")
      have f1: "obs_frame None s s1" using o r by simp
      show ?thesis using Ref None r f1 obs_frame_trans [OF f1 obs_frame_vmCount]
        by (cases res) (simp_all)
    next
      case (Some obv)
      then show ?thesis using Ref obs_frame_vmCount by simp
    qed
  qed simp_all
qed

lemma observe_marks:
  assumes "can_observe env s r"
  shows "ob (heap (snd (observe env (Suc n) (Ref r) a s)) r) \<noteq> None"
proof (cases "ob (heap s r)")
  case None
  note o = Observer_new_with_frame [where observe_rec = "observe env n" and fuel = "Suc n" and s = s and r = r, OF observe_frame None, THEN conjunct2]
  obtain res s1 where r: "Observer_new_with (observe env n) (Suc n) r s = (res, s1)"
    by (cases "Observer_new_with (observe env n) (Suc n) r s")
  have "ob (heap s1 r) \<noteq> None" using o r by simp
  then show ?thesis using None r assms
    by (cases res) (auto simp: can_observe_def)
next
  case (Some obv)
  then show ?thesis using assms by (simp add: can_observe_def)
qed

section \<open>Properties of notify\<close>

lemma watchers_ran_refl [simp]: "watchers_ran s s"
  by (simp add: watchers_ran_def)

lemma watchers_ran_trans: "watchers_ran s s1 \<Longrightarrow> watchers_ran s1 s2 \<Longrightarrow> watchers_ran s s2"
  unfolding watchers_ran_def
  apply (elim conjE exE)
  apply (intro conjI)
          apply simp_all
  done

lemma same_objects_ran: "same_objects s s' \<Longrightarrow> watchers_ran s s'"
  by (simp add: same_objects_def watchers_ran_def)

lemma ran_say: "quiet e \<Longrightarrow> watchers_ran s (say e s)"
  by (simp add: watchers_ran_def say_def)

lemma same_objects_fold_depend: "same_objects s (fold Dep_depend ds s)"
proof (induction ds arbitrary: s)
  case Nil
  then show ?case by simp
next
  case (Cons d ds)
  show ?case using same_objects_trans [OF same_objects_depend Cons.IH] by simp
qed

lemma same_objects_pushTarget: "same_objects s (pushTarget t s)"
  by (simp add: same_objects_def pushTarget_def)

lemma same_objects_popTarget: "same_objects s (popTarget s)"
  by (simp add: same_objects_def popTarget_def Let_def)

lemma same_objects_fold_removeSub:
  "same_objects s (fold (\<lambda>d st. if P d then Dep_removeSub d w st else st) ds s)"
proof (induction ds arbitrary: s)
  case Nil
  then show ?case by simp
next
  case (Cons d ds)
  have a: "same_objects s (if P d then Dep_removeSub d w s else s)"
    by (simp add: same_objects_def Dep_removeSub_def)
  show ?case using same_objects_trans [OF a Cons.IH] by simp
qed

lemma same_objects_cleanupDeps: "same_objects s (Watcher_cleanupDeps w s)"
  using same_objects_fold_removeSub [of s "\<lambda>d. d \<notin> newDepIds (watchers s w)" w "rev (deps (watchers s w))"]
  by (simp add: Watcher_cleanupDeps_def Let_def same_objects_def)

lemma ran_get_try: "watchers_ran s (snd (get_try env w s))"
proof -
  have a: "watchers_ran s (say (GetterCall w) s)" by (rule ran_say) (simp add: quiet_def)
  have b: "watchers_ran s (fold Dep_depend (reads (getter env w s)) (say (GetterCall w) s))"
    by (rule watchers_ran_trans [OF a same_objects_ran [OF same_objects_fold_depend]])
  have c: "watchers_ran s (say (HandleError w) (fold Dep_depend (reads (getter env w s)) (say (GetterCall w) s)))"
    by (rule watchers_ran_trans [OF b ran_say]) (simp add: quiet_def)
  show ?thesis using b c by (simp add: get_try_def Let_def split: option.splits)
qed

lemma ran_get: "watchers_ran s (snd (Watcher_get env w s))"
proof -
  let ?s1 = "pushTarget (Some w) s"
  obtain res s3 where g: "get_try env w ?s1 = (res, s3)" by (cases "get_try env w ?s1")
  have a: "watchers_ran s s3"
    using watchers_ran_trans [OF same_objects_ran [OF same_objects_pushTarget] ran_get_try [of ?s1 env w]] g
    by simp
  let ?val = "case res of Inr v \<Rightarrow> v | Inl e \<Rightarrow> Undefined"
  let ?s4 = "if deep (watchers s3 w) then fold Dep_depend (traverse env ?val s3) s3 else s3"
  have b: "same_objects s3 ?s4" by (simp add: same_objects_fold_depend)
  have c: "same_objects s3 (Watcher_cleanupDeps w (popTarget ?s4))"
    by (rule same_objects_trans [OF b same_objects_trans [OF same_objects_popTarget same_objects_cleanupDeps]])
  have e: "snd (Watcher_get env w s) = Watcher_cleanupDeps w (popTarget ?s4)"
    using g by (simp add: Watcher_get_def Let_def)
  show ?thesis unfolding e by (rule watchers_ran_trans [OF a same_objects_ran [OF c]])
qed

lemma ran_run: "watchers_ran s (snd (Watcher_run env w s))"
proof -
  obtain res s1 where g: "Watcher_get env w s = (res, s1)" by (cases "Watcher_get env w s")
  have a: "watchers_ran s s1" using ran_get [of s env w] g by simp
  have b: "\<And>v o'. watchers_ran s1 (say (CbCall w v o') (s1 \<lparr> watchers := (watchers s1)(w := (watchers s1 w) \<lparr> wvalue := v \<rparr>) \<rparr>))"
    by (simp add: watchers_ran_def say_def quiet_def)
  show ?thesis using g a watchers_ran_trans [OF a b]
    by (simp add: Watcher_run_def Let_def split: sum.splits)
qed

lemma ran_update: "watchers_ran s (snd (Watcher_update env w s))"
  using ran_run [of s env w]
  by (simp add: Watcher_update_def Let_def watchers_ran_def say_def quiet_def)

lemma ran_update_each: "watchers_ran s (snd (update_each env ws s))"
proof (induction ws arbitrary: s)
  case Nil
  then show ?case by simp
next
  case (Cons w ws)
  obtain res s1 where g: "Watcher_update env w s = (res, s1)" by (cases "Watcher_update env w s")
  have a: "watchers_ran s s1" using ran_update [of s env w] g by simp
  show ?case using g a watchers_ran_trans [OF a Cons.IH [of s1]]
    by (cases res) simp_all
qed

lemma notify_ran:
  "heap (snd (Dep_notify env d s)) = heap s \<and> observers (snd (Dep_notify env d s)) = observers s
   \<and> closures (snd (Dep_notify env d s)) = closures s
   \<and> ob_uid (snd (Dep_notify env d s)) = ob_uid s
   \<and> closure_uid (snd (Dep_notify env d s)) = closure_uid s
   \<and> (\<exists>evs. trace (snd (Dep_notify env d s)) = trace s @ Notify d # evs \<and> list_all quiet evs)"
proof -
  let ?subs = "if \<not> production env \<and> \<not> async_config env then sort (dep_subs s d) else dep_subs s d"
  have e: "Dep_notify env d s = update_each env ?subs (say (Notify d) s)"
    by (simp add: Dep_notify_def Let_def)
  show ?thesis unfolding e
    using ran_update_each [of "say (Notify d) s" env ?subs]
    unfolding watchers_ran_def by (simp add: say_def)
qed

text \<open>When no getter throws, notify returns normally.\<close>

lemma get_no_throw:
  assumes "\<And>w st. outcome (getter env w st) \<noteq> None"
  shows "\<exists>v. fst (Watcher_get env w s) = Inr v"
proof -
  obtain v where "outcome (getter env w (pushTarget (Some w) s)) = Some v"
    using assms [of w "pushTarget (Some w) s"] by auto
  then show ?thesis
    by (simp add: Watcher_get_def get_try_def Let_def split_beta)
qed

lemma update_no_throw:
  assumes "\<And>w st. outcome (getter env w st) \<noteq> None"
  shows "fst (Watcher_update env w s) = Inr ()"
proof -
  obtain v where g: "fst (Watcher_get env w s) = Inr v" using get_no_throw [OF assms] by blast
  obtain res s1 where p: "Watcher_get env w s = (res, s1)" by (cases "Watcher_get env w s")
  show ?thesis using g p
    by (simp add: Watcher_update_def Watcher_run_def Let_def)
qed

lemma update_each_no_throw:
  assumes "\<And>w st. outcome (getter env w st) \<noteq> None"
  shows "fst (update_each env ws s) = Inr ()"
proof (induction ws arbitrary: s)
  case Nil
  then show ?case by simp
next
  case (Cons w ws)
  obtain res s1 where p: "Watcher_update env w s = (res, s1)" by (cases "Watcher_update env w s")
  have "res = Inr ()" using update_no_throw [OF assms, of w s] p by simp
  then show ?case using p Cons.IH [of s1] by simp
qed

lemma notify_no_throw:
  assumes "\<And>w st. outcome (getter env w st) \<noteq> None"
  shows "fst (Dep_notify env d s) = Inr ()"
  by (simp add: Dep_notify_def Let_def update_each_no_throw [OF assms])

section \<open>Properties of the wrapped array methods\<close>

lemma forE_each:
  assumes run: "forE f xs s = (Inr u, s')"
    and step: "\<And>x st. R st (snd (f x st))"
    and refl: "\<And>st. R st st" and trans: "\<And>a b c. R a b \<Longrightarrow> R b c \<Longrightarrow> R a c"
    and mem: "x \<in> set xs"
  shows "\<exists>st. R s st \<and> fst (f x st) = Inr () \<and> R (snd (f x st)) s'"
  using run mem
proof (induction xs arbitrary: s)
  case Nil
  then show ?case by simp
next
  case (Cons y ys)
  obtain res s1 where p: "f y s = (res, s1)" by (cases "f y s")
  have r: "res = Inr ()" using Cons.prems(1) p by (cases res) simp_all
  have rest: "forE f ys s1 = (Inr u, s')" using Cons.prems(1) p r by simp
  have a: "R s s1" using step [of s y] p by simp
  have "R s1 (snd (forE f ys s1))"
  proof (rule forE_invariant [where R = R])
    show "\<And>x s. x \<in> set ys \<Longrightarrow> R s (snd (f x s))" by (rule step)
    show "\<And>s. R s s" by (rule refl)
    show "\<And>s s1 s2. R s s1 \<Longrightarrow> R s1 s2 \<Longrightarrow> R s s2" by (rule trans)
  qed
  then have b: "R s1 s'" using rest by simp
  show ?case
  proof (cases "x = y")
    case True
    have "R s s \<and> fst (f x s) = Inr () \<and> R (snd (f x s)) s'"
      using True p r b refl by simp
    then show ?thesis by blast
  next
    case False
    then have "x \<in> set ys" using Cons.prems(2) by simp
    from Cons.IH [OF rest this] obtain st
      where "R s1 st" "fst (f x st) = Inr ()" "R (snd (f x st)) s'" by blast
    then show ?thesis using trans [OF a] by blast
  qed
qed

lemma can_observe_frame:
  "obs_frame e s s' \<Longrightarrow> can_observe env s' r = can_observe env s r"
  by (simp add: can_observe_def obs_frame_def)

lemma observe_inert:
  assumes "0 < n" and "\<And>x. v = Ref x \<Longrightarrow> ob (heap s x) \<noteq> None \<or> \<not> can_observe env s x"
  shows "\<exists>r. observe env n v False s = (Inr r, s)"
proof -
  obtain k where n: "n = Suc k" using assms(1) by (cases n) simp_all
  show ?thesis
  proof (cases v)
    case (Ref x)
    then show ?thesis using assms(2) [OF Ref] n
      by (cases "ob (heap s x)") (auto simp: can_observe_def)
  qed (simp_all add: n)
qed

lemma observeArray_inert:
  assumes "0 < n"
  shows "(\<And>x. Ref x \<in> set items \<Longrightarrow> ob (heap s x) \<noteq> None \<or> \<not> can_observe env s x)
     \<Longrightarrow> observeArray env n items s = (Inr (), s)"
proof (induction items)
  case Nil
  then show ?case by (simp add: observeArray_def observeArray_with_def)
next
  case (Cons v vs)
  have "\<exists>r. observe env n v False s = (Inr r, s)"
  proof (rule observe_inert [OF assms])
    fix x assume "v = Ref x"
    then show "ob (heap s x) \<noteq> None \<or> \<not> can_observe env s x" using Cons.prems [of x] by simp
  qed
  then obtain r where r: "observe env n v False s = (Inr r, s)" by blast
  have "observeArray env n vs s = (Inr (), s)"
  proof (rule Cons.IH)
    fix x assume "Ref x \<in> set vs"
    then show "ob (heap s x) \<noteq> None \<or> \<not> can_observe env s x" using Cons.prems [of x] by simp
  qed
  then show ?case using r by (simp add: observeArray_def observeArray_with_def)
qed

lemma observeArray_frame: "obs_frame None s (snd (observeArray env n items s))"
  unfolding observeArray_def by (rule observeArray_with_frame) (rule observe_frame)

lemma observeArray_marks:
  assumes run: "observeArray env n items s = (Inr u, s')"
    and mem: "Ref x \<in> set items" and can: "can_observe env s x"
  shows "ob (heap s' x) \<noteq> None"
proof -
  let ?f = "\<lambda>item st. case observe env n item False st of
                        (Inl e, st1) \<Rightarrow> (Inl e, st1)
                      | (Inr res, st1) \<Rightarrow> (Inr (), st1)"
  have sn: "\<And>v st. snd (?f v st) = snd (observe env n v False st)"
    by (simp add: split_beta split: sum.splits)
  have run': "forE ?f items s = (Inr u, s')"
    using run by (simp add: observeArray_def observeArray_with_def)
  have "\<exists>st. obs_frame None s st \<and> fst (?f (Ref x) st) = Inr ()
          \<and> obs_frame None (snd (?f (Ref x) st)) s'"
  proof (rule forE_each [where R = "obs_frame None", OF run' _ _ _ mem])
    show "\<And>v st. obs_frame None st (snd (?f v st))" unfolding sn by (rule observe_frame)
    show "\<And>st. obs_frame None st st" by simp
    show "\<And>a b c. obs_frame None a b \<Longrightarrow> obs_frame None b c \<Longrightarrow> obs_frame None a c"
      by (rule obs_frame_trans)
  qed
  then obtain st where a: "obs_frame None s st" and b: "fst (?f (Ref x) st) = Inr ()"
    and c: "obs_frame None (snd (observe env n (Ref x) False st)) s'"
    unfolding sn by blast
  have "n \<noteq> 0" using b by (cases n) simp_all
  then obtain k where n: "n = Suc k" by (cases n) simp_all
  have "can_observe env st x" using can can_observe_frame [OF a] by simp
  then have "ob (heap (snd (observe env n (Ref x) False st)) x) \<noteq> None"
    unfolding n by (rule observe_marks)
  then show ?thesis using c unfolding obs_frame_def by metis
qed

lemma mutator_unfold:
  assumes "ob (heap s this) = Some obv"
  shows "mutator env fuel m this args s =
     (let s1 = say (NativeCall m args)
                 (s \<lparr> heap := (heap s)(this := (heap s this)
                        \<lparr> elems := fst (native env m (elems (heap s this)) args) \<rparr>) \<rparr>)
      in case (case inserted m args of
                 Some items \<Rightarrow> observeArray env fuel items s1
               | None \<Rightarrow> (Inr (), s1)) of
           (Inl e, s2) \<Rightarrow> (Inl e, s2)
         | (Inr u, s2) \<Rightarrow>
             (case Dep_notify env (ob_dep (observers s2 obv)) s2 of
                (Inl e, s3) \<Rightarrow> (Inl e, s3)
              | (Inr u, s3) \<Rightarrow> (Inr (snd (native env m (elems (heap s this)) args)), s3)))"
  using assms by (simp add: mutator_def Let_def split_beta say_def)



section \<open>Properties of defineReactive\<close>

lemma notifications_append [simp]:
  "notifications (a @ b) = notifications a @ notifications b"
  by (simp add: notifications_def)

lemma notifications_quiet: "list_all quiet evs \<Longrightarrow> notifications evs = []"
  by (induction evs) (auto simp: notifications_def quiet_def split: event.splits)

lemma notifications_Notify [simp]: "notifications (Notify d # evs) = d # notifications evs"
  by (simp add: notifications_def)

lemma forE_errors:
  assumes "\<And>x st. x \<in> set xs \<Longrightarrow> fst (f x st) = Inr () \<or> fst (f x st) = Inl e"
  shows "fst (forE f xs s) = Inr () \<or> fst (forE f xs s) = Inl e"
  using assms
proof (induction xs arbitrary: s)
  case Nil
  then show ?case by simp
next
  case (Cons x xs)
  obtain res s1 where p: "f x s = (res, s1)" by (cases "f x s")
  have "res = Inr () \<or> res = Inl e" using Cons.prems [of x s] p by simp
  then show ?case using p Cons.IH [of s1] Cons.prems by auto
qed

lemma dependArray_errors:
  "fst (dependArray n es s) = Inr () \<or> fst (dependArray n es s) = Inl OutOfFuel"
proof (induction n arbitrary: es s)
  case 0
  then show ?case by simp
next
  case (Suc n)
  show ?case unfolding dependArray.simps
    by (rule forE_errors) (auto simp: Let_def Suc.IH split: jsval.splits)
qed

lemma same_value_eq:
  "strict_eq v w \<or> (\<not> strict_eq v v \<and> \<not> strict_eq w w) \<Longrightarrow> v = w"
  by (auto simp: strict_eq_def)

lemma same_value_refl: "strict_eq v v \<or> (\<not> strict_eq v v \<and> \<not> strict_eq v v)"
  by simp

lemma read_data_key:
  assumes key: "map_of (props (heap s r)) k
                  = Some (AccessorProp (Some (ReactiveGet c)) st cf)"
    and data: "c_getter (closures s c) = None"
  shows "(fst (prop_read (Suc m) r k s) = Inr (c_val (closures s c))
           \<or> fst (prop_read (Suc m) r k s) = Inl OutOfFuel)
         \<and> (target s = None \<longrightarrow> prop_read (Suc m) r k s = (Inr (c_val (closures s c)), s))"
proof -
  have e: "prop_read (Suc m) r k s = call_get (Suc m) (ReactiveGet c) s"
    using key by (simp add: prop_read_def)
  have cl: "closures (Dep_depend d s) = closures s" "heap (Dep_depend d s) = heap s" for d s
    using depend_fields [of d s] by simp_all
  show ?thesis unfolding e
    using dependArray_errors
    apply (simp add: data Let_def cl split: option.splits jsval.splits)
    apply (auto simp: split_beta split: sum.splits prod.splits)
    subgoal for obv x e y
      using dependArray_errors [of m "elems (heap s x)" "Dep_depend (ob_dep (observers (Dep_depend (c_dep (closures s c)) s) obv))
                 (Dep_depend (c_dep (closures s c)) s)"] by simp
    done
qed

lemma call_set_data_unfold:
  assumes data: "c_getter (closures s c) = None" "c_setter (closures s c) = None"
  shows "call_set env (Suc n) (ReactiveSet c) v s =
     (if strict_eq v (c_val (closures s c))
         \<or> (\<not> strict_eq v v \<and> \<not> strict_eq (c_val (closures s c)) (c_val (closures s c)))
      then (Inr (), s)
      else
        (let s2 = (if \<not> production env \<and> c_customSetter (closures s c)
                   then say CustomSetterCall s else s);
             s3 = s2 \<lparr> closures := (closures s2)(c := (closures s2 c) \<lparr> c_val := v \<rparr>) \<rparr>
         in case (if c_shallow (closures s3 c) then (Inr None, s3)
                  else observe env (Suc n) v False s3) of
              (Inl e, s4) \<Rightarrow> (Inl e, s4)
            | (Inr childOb, s4) \<Rightarrow>
                Dep_notify env (c_dep (closures s4 c))
                  (s4 \<lparr> closures := (closures s4)
                         (c := (closures s4 c) \<lparr> c_childOb := childOb \<rparr>) \<rparr>)))"
  using data by (simp add: Let_def say_def)

lemma call_set_data:
  assumes data: "c_getter (closures s c) = None" "c_setter (closures s c) = None"
    and alloc: "c < closure_uid s"
  shows "c_val (closures (snd (call_set env (Suc n) (ReactiveSet c) v s)) c) = v
     \<and> c_getter (closures (snd (call_set env (Suc n) (ReactiveSet c) v s)) c) = None
     \<and> c_setter (closures (snd (call_set env (Suc n) (ReactiveSet c) v s)) c) = None
     \<and> (\<forall>x. ob (heap s x) \<noteq> None \<longrightarrow>
           heap (snd (call_set env (Suc n) (ReactiveSet c) v s)) x = heap s x)
     \<and> (notifications (trace (snd (call_set env (Suc n) (ReactiveSet c) v s)))
          = notifications (trace s)
        \<or> notifications (trace (snd (call_set env (Suc n) (ReactiveSet c) v s)))
          = notifications (trace s) @ [c_dep (closures s c)])
     \<and> ((\<forall>w st. outcome (getter env w st) \<noteq> None) \<longrightarrow>
         (\<forall>x. v = Ref x \<longrightarrow> ob (heap s x) \<noteq> None \<or> \<not> can_observe env s x) \<longrightarrow>
         fst (call_set env (Suc n) (ReactiveSet c) v s) = Inr ())"
proof (cases "strict_eq v (c_val (closures s c))
         \<or> (\<not> strict_eq v v \<and> \<not> strict_eq (c_val (closures s c)) (c_val (closures s c)))")
  case True
  have "v = c_val (closures s c)" by (rule same_value_eq [OF True])
  then show ?thesis
    unfolding call_set_data_unfold [OF data] using True data by simp
next
  case False
  define s2 where "s2 = (if \<not> production env \<and> c_customSetter (closures s c)
                   then say CustomSetterCall s else s)"
  define s3 where "s3 = s2 \<lparr> closures := (closures s2)(c := (closures s2 c) \<lparr> c_val := v \<rparr>) \<rparr>"
  define oo where "oo = (if c_shallow (closures s3 c) then (Inr None, s3)
                  else observe env (Suc n) v False s3)"
  define s4 where "s4 = snd oo"
  define s5 where "s5 = (\<lambda>childOb. s4 \<lparr> closures := (closures s4)
                         (c := (closures s4 c) \<lparr> c_childOb := childOb \<rparr>) \<rparr>)"
  define d where "d = c_dep (closures s c)"
  have e: "call_set env (Suc n) (ReactiveSet c) v s =
     (case oo of (Inl e, s4) \<Rightarrow> (Inl e, s4)
      | (Inr childOb, s4) \<Rightarrow> Dep_notify env (c_dep (closures s4 c))
                  (s4 \<lparr> closures := (closures s4)
                         (c := (closures s4 c) \<lparr> c_childOb := childOb \<rparr>) \<rparr>))"
    unfolding call_set_data_unfold [OF data] oo_def s3_def s2_def using False
    by (simp only: if_False Let_def)
  have s2: "closures s2 = closures s" "heap s2 = heap s" "closure_uid s2 = closure_uid s"
    "notifications (trace s2) = notifications (trace s)" "shouldObserve s2 = shouldObserve s"
    by (simp_all add: s2_def say_def notifications_def)
  have s3: "closures s3 c = (closures s c) \<lparr> c_val := v \<rparr>" "heap s3 = heap s"
    "closure_uid s3 = closure_uid s" "notifications (trace s3) = notifications (trace s)"
    "shouldObserve s3 = shouldObserve s"
    by (simp_all add: s3_def s2)
  have f34: "obs_frame None s3 s4"
    unfolding s4_def oo_def using observe_frame [of s3 env "Suc n" v False] by simp
  have c4: "closures s4 c = (closures s c) \<lparr> c_val := v \<rparr>"
    using f34 alloc s3 unfolding obs_frame_def by simp
  have h4: "ob (heap s x) \<noteq> None \<Longrightarrow> heap s4 x = heap s x" for x
    using f34 s3 unfolding obs_frame_def by simp
  have t4: "notifications (trace s4) = notifications (trace s)"
    using f34 s3 unfolding obs_frame_def by simp
  show ?thesis
  proof (cases "fst oo")
    case (Inl err)
    then have r: "call_set env (Suc n) (ReactiveSet c) v s = (Inl err, s4)"
      unfolding e s4_def by (cases oo) simp
    have inert: "\<not> (\<forall>x. v = Ref x \<longrightarrow> ob (heap s x) \<noteq> None \<or> \<not> can_observe env s x)"
    proof
      assume a: "\<forall>x. v = Ref x \<longrightarrow> ob (heap s x) \<noteq> None \<or> \<not> can_observe env s x"
      have "\<exists>r. fst oo = Inr r"
      proof (cases "c_shallow (closures s3 c)")
        case True
        then show ?thesis by (simp add: oo_def)
      next
        case False
        have "\<exists>r. observe env (Suc n) v False s3 = (Inr r, s3)"
          by (rule observe_inert) (use a in \<open>simp_all add: can_observe_def s3\<close>)
        then show ?thesis using False by (auto simp: oo_def)
      qed
      then show False using Inl by simp
    qed
    have p6: "(\<forall>w st. outcome (getter env w st) \<noteq> None) \<longrightarrow>
         (\<forall>x. v = Ref x \<longrightarrow> ob (heap s x) \<noteq> None \<or> \<not> can_observe env s x) \<longrightarrow>
         fst (Inl err :: error + unit, s4) = Inr ()"
      using inert by blast
    show ?thesis unfolding r
      apply (intro conjI)
      subgoal using c4 by simp
      subgoal using c4 data by simp
      subgoal using c4 data by simp
      subgoal using h4 by simp
      subgoal using t4 by simp
      subgoal by (rule p6)
      done
  next
    case (Inr childOb)
    then have r: "call_set env (Suc n) (ReactiveSet c) v s = Dep_notify env d (s5 childOb)"
      unfolding e s4_def s5_def d_def using c4 [unfolded s4_def] by (cases oo) simp
    note nr = notify_ran [of env d "s5 childOb"]
    have c5: "closures (s5 childOb) c = (closures s c) \<lparr> c_val := v, c_childOb := childOb \<rparr>"
      by (simp add: s5_def c4)
    have h5: "heap (s5 childOb) = heap s4" "trace (s5 childOb) = trace s4" by (simp_all add: s5_def)
    obtain evs where tr: "trace (snd (Dep_notify env d (s5 childOb))) = trace s4 @ Notify d # evs"
      and q: "list_all quiet evs"
      using nr h5 by auto
    have n: "notifications (trace (snd (Dep_notify env d (s5 childOb))))
         = notifications (trace s) @ [d]"
      unfolding tr using t4 notifications_quiet [OF q] by simp
    have ok: "fst (Dep_notify env d (s5 childOb)) = Inr ()"
      if "\<forall>w st. outcome (getter env w st) \<noteq> None"
      by (rule notify_no_throw) (simp add: that)
    show ?thesis unfolding r using nr c5 h5 h4 n data ok by (auto simp: d_def)
  qed
qed

lemma reactive_closure_Some:
  "reactive_closure p = Some c \<Longrightarrow>
   \<exists>cf. p = Some (AccessorProp (Some (ReactiveGet c)) (Some (ReactiveSet c)) cf)"
  by (induction p rule: reactive_closure.induct) (simp_all split: if_splits)

lemma defineReactive_data_key:
  assumes dp: "map_of (props (heap s r)) k = Some (DataProp v0 True)"
    and observed: "ob (heap s r) \<noteq> None"
    and run: "defineReactive env fuel r k None cs sh s = (Inr (), s')"
  shows "\<exists>c. reactive_closure (map_of (props (heap s' r)) k) = Some c
           \<and> c_getter (closures s' c) = None \<and> c_setter (closures s' c) = None
           \<and> c < closure_uid s' \<and> c_val (closures s' c) = v0"
proof -
  obtain d s0 where nd: "new_Dep s = (d, s0)" by (cases "new_Dep s")
  have h0: "heap s0 = heap s" using nd by (auto simp: new_Dep_def)
  have rd: "prop_read fuel r k s0 = (Inr v0, s0)" using dp by (simp add: prop_read_def h0)
  define oo where "oo = (if sh then (Inr None, s0) else observe env fuel v0 False s0)"
  have f: "obs_frame None s0 (snd oo)"
    unfolding oo_def using observe_frame [of s0 env fuel v0 False] by simp
  have hr: "heap (snd oo) r = heap s r" using f observed unfolding obs_frame_def by (simp add: h0)
  have e: "defineReactive env fuel r k None cs sh s =
      (case oo of
         (Inl e, s2) \<Rightarrow> (Inl e, s2)
       | (Inr childOb, s2) \<Rightarrow>
           (Inr (),
            s2 \<lparr> closure_uid := closure_uid s2 + 1,
                 closures := (closures s2)
                   (closure_uid s2 := \<lparr> c_dep = d, c_val = v0, c_childOb = childOb,
                           c_getter = None, c_setter = None,
                           c_customSetter = cs, c_shallow = sh \<rparr>),
                 heap := (heap s2)
                   (r := (heap s2 r)
                      \<lparr> props := AList.update k
                           (AccessorProp (Some (ReactiveGet (closure_uid s2)))
                              (Some (ReactiveSet (closure_uid s2))) True)
                           (props (heap s2 r)) \<rparr>) \<rparr>))"
    using hr dp
    by (cases oo; cases "fst oo")
      (simp_all add: defineReactive_def defineReactive_with_def nd h0 rd oo_def Let_def
        split: sum.splits)
  obtain res s2 where p: "oo = (res, s2)" by (cases oo)
  show ?thesis
  proof (cases res)
    case (Inl err)
    then show ?thesis using run p unfolding e by simp
  next
    case (Inr childOb)
    then show ?thesis using run p unfolding e
      by (intro exI [of _ "closure_uid s2"]) (auto simp: update_conv)
  qed
qed




end
